theory Spec2Isabelle
  imports Main "HOL-Library.AList" "HOL-Library.Word"
begin

section \<open>Data model of celvalidator\<close>

text \<open>
  A Go \<open>error\<close> value is opaque to the validator: it is only stored, returned and
  compared with \<open>nil\<close>. \<open>nil\<close> is \<open>None\<close> of \<open>go_error option\<close>.
\<close>

datatype go_error = GoError string

text \<open>\<open>RuleEntry\<close>: a CEL rule with optional dependent rules (field \<open>Then\<close>).\<close>

datatype RuleEntry =
  RuleEntry (Rule: string) (Enabled: bool) (FailureMessage: string) (Then: "RuleEntry list")

text \<open>
  \<open>RuleSetMap\<close> is \<open>map[string]map[string][]RuleEntry\<close>. The outer map is only looked
  up. The inner map is also counted and ranged over (\<open>NewValidationMetadata\<close>), so it is
  an association list; a Go map has each key once, which is \<open>distinct (map fst m)\<close>.
\<close>

type_synonym RuleSetMap = "string \<rightharpoonup> (string \<times> RuleEntry list) list"

record ValidationMetadata =
  StructName :: string
  Operation :: string
  ChainPath :: string
  RuleIndex :: int
  ParentRule :: string

record ValidationResult =
  Rule_res :: string
  Passed :: bool
  Error :: "go_error option"
  Message :: string
  Metadata :: ValidationMetadata

record Validator =
  partialEval :: bool

definition NewValidator :: "(Validator \<Rightarrow> Validator) list \<Rightarrow> Validator" where
  "NewValidator opts = foldl (\<lambda>v opt. opt v) \<lparr>partialEval = False\<rparr> opts"

definition WithPartialEval :: "Validator \<Rightarrow> Validator" where
  "WithPartialEval v = v\<lparr>partialEval := True\<rparr>"

subsection \<open>Go values as reflection sees them\<close>

text \<open>
  The argument \<open>obj\<close> has type \<open>any\<close>. The constructors are the cases the code
  distinguishes: the nil interface, the basic types \<open>inferType\<close> switches on,
  \<open>map[string]any\<close>, \<open>map[string]string\<close> (the map of the repository's tests), a struct
  (its type name and its fields in declaration order), a non-nil pointer, a nil pointer
  (with the name of the type it points to) and any other value (with its type name;
  \<open>''''\<close> for an unnamed type). Floats are kept as their bit patterns; no arithmetic is
  done on any value here.

  A field records its name, whether \<open>CanInterface\<close> holds for it (it is exported),
  whether its declared type is an interface type, and the value \<open>value.Interface()\<close>
  returns for it: for a field of interface type that is the value the interface holds
  (\<open>NilV\<close> when it holds none).
\<close>

datatype go_value =
    NilV
  | StringV string
  | IntV int
  | Int64V int
  | Float32V "32 word"
  | Float64V "64 word"
  | BoolV bool
  | MapStringAnyV "(string \<times> go_value) list"
  | MapStringStringV "(string \<times> string) list"
  | StructV string "go_field list"
  | PtrV go_value
  | NilPtrV string
  | OtherV string
and go_field =
  StructField (fname: string) (canInterface: bool) (ofInterfaceType: bool) (fvalue: go_value)

text \<open>
  \<open>reflect.Kind\<close>, as far as the code looks at it. \<open>Kind\<close> is the kind of
  \<open>reflect.ValueOf(v)\<close>. The kind of a field's \<open>reflect.Value\<close> follows the field's
  declared type: it is \<open>Interface\<close> for a field of interface type, whatever the field
  holds, and the kind of the value otherwise.
\<close>

datatype reflect_Kind =
  reflect_Invalid | reflect_Struct | reflect_Ptr | reflect_Interface | reflect_Other

fun Kind :: "go_value \<Rightarrow> reflect_Kind" where
  "Kind NilV = reflect_Invalid"
| "Kind (StructV _ _) = reflect_Struct"
| "Kind (PtrV _) = reflect_Ptr"
| "Kind (NilPtrV _) = reflect_Ptr"
| "Kind _ = reflect_Other"

fun fieldKind :: "go_field \<Rightarrow> reflect_Kind" where
  "fieldKind (StructField name ci iface val) = (if iface then reflect_Interface else Kind val)"

text \<open>\<open>reflect.Type.Name()\<close> of the dynamic type; unnamed types have the empty name.\<close>

fun typeName :: "go_value \<Rightarrow> string" where
  "typeName (StringV _) = ''string''"
| "typeName (IntV _) = ''int''"
| "typeName (Int64V _) = ''int64''"
| "typeName (Float32V _) = ''float32''"
| "typeName (Float64V _) = ''float64''"
| "typeName (BoolV _) = ''bool''"
| "typeName (StructV n _) = n"
| "typeName (OtherV n) = n"
| "typeName _ = ''''"

text \<open>
  \<open>getStructName\<close>: \<open>reflect.TypeOf(nil)\<close> is nil and \<open>t.Kind()\<close> panics on it
  (\<open>None\<close>); a pointer type is replaced by its element type, once.
\<close>

fun getStructName :: "go_value \<Rightarrow> string option" where
  "getStructName NilV = None"
| "getStructName (PtrV v) = Some (typeName v)"
| "getStructName (NilPtrV n) = Some n"
| "getStructName v = Some (typeName v)"

subsection \<open>The CEL library\<close>

text \<open>
  cel-go is not part of the repository: it is a parameter. \<open>out.Value() == true\<close> holds
  exactly for the CEL boolean \<open>true\<close>.
\<close>

datatype cel_type = decls_MapStringDyn | decls_String | decls_Int | decls_Double | decls_Bool | decls_Dyn

datatype ref_Val = BoolVal bool | OtherVal string

record ('env, 'ast, 'prg) cel =
  NewEnv :: "(string \<times> cel_type) list \<Rightarrow> go_error + 'env"
  Compile :: "'env \<Rightarrow> string \<Rightarrow> go_error + 'ast"
  Program :: "'env \<Rightarrow> 'ast \<Rightarrow> go_error + 'prg"
  Eval :: "'prg \<Rightarrow> (string \<times> go_value) list \<Rightarrow> ref_Val \<times> go_error option"

section \<open>Rule resolution\<close>

text \<open>\<open>filterEnabledRules\<close>: a deep copy of an entry with only enabled nested rules.\<close>

fun filterEnabledRules :: "RuleEntry \<Rightarrow> RuleEntry"
  and filterThen :: "RuleEntry list \<Rightarrow> RuleEntry list \<Rightarrow> RuleEntry list" where
  "filterEnabledRules (RuleEntry r en fm th) = RuleEntry r en fm (filterThen th [])"
| "filterThen [] acc = acc"
| "filterThen (child # rest) acc =
     (if Enabled child then filterThen rest (acc @ [filterEnabledRules child])
      else filterThen rest acc)"

text \<open>One of the two loops of \<open>GetRulesFor\<close>, over a bucket, on \<open>(merged, seen)\<close>.\<close>

fun mergeRules :: "RuleEntry list \<Rightarrow> RuleEntry list \<times> string set \<Rightarrow> RuleEntry list \<times> string set" where
  "mergeRules [] (merged, seen) = (merged, seen)"
| "mergeRules (r # rs) (merged, seen) =
     (if Rule r \<notin> seen \<and> Enabled r
      then mergeRules rs (merged @ [filterEnabledRules r], insert (Rule r) seen)
      else mergeRules rs (merged, seen))"

definition GetRulesFor :: "go_value \<Rightarrow> string \<Rightarrow> RuleSetMap \<Rightarrow> RuleEntry list option" where
  "GetRulesFor obj operation rules =
     (case getStructName obj of
        None \<Rightarrow> None
      | Some name \<Rightarrow>
          (case rules name of
             None \<Rightarrow> Some []
           | Some structRules \<Rightarrow>
               (let s1 = (case map_of structRules ''Default'' of
                            None \<Rightarrow> ([], {})
                          | Some defaultRules \<Rightarrow> mergeRules defaultRules ([], {}));
                    s2 = (case map_of structRules operation of
                            None \<Rightarrow> s1
                          | Some opRules \<Rightarrow> mergeRules opRules s1)
                in Some (fst s2))))"

definition NewValidationMetadata :: "go_value \<Rightarrow> string \<Rightarrow> RuleSetMap \<Rightarrow> ValidationMetadata option" where
  "NewValidationMetadata obj operation rules =
     (case getStructName obj of
        None \<Rightarrow> None
      | Some structName \<Rightarrow>
          (let op = (case rules structName of
                       Some structRules \<Rightarrow>
                         (if operation = ''''
                          then (if length structRules = 1
                                then foldl (\<lambda>op (k, _). k) operation structRules
                                else ''Default'')
                          else operation)
                     | None \<Rightarrow> ''Default'')
           in Some \<lparr>StructName = structName, Operation = op, ChainPath = '''',
                     RuleIndex = - 1, ParentRule = ''''\<rparr>))"

section \<open>Flattening a record and building the environment\<close>

text \<open>
  \<open>flattenStruct\<close>. The result map is an association list written with
  \<open>AList.update\<close> (a Go map assignment). \<open>None\<close> is the panic of
  \<open>reflect.Value.NumField\<close> on a value that is not a struct: the nil interface, a nil
  pointer, a pointer to something else than a struct, any non-struct value. Only an
  input of kind \<open>Ptr\<close> is dereferenced. The loop switches on the kind of the field
  (\<open>value.Kind()\<close>): a field of kind \<open>Struct\<close> is flattened, a field of any other kind
  is stored as it is (the \<open>default\<close> branch), also a pointer to a struct and a field of
  interface type that holds a struct.
\<close>

fun flattenStruct :: "go_value \<Rightarrow> (string \<times> go_value) list option"
  and flattenFields :: "go_field list \<Rightarrow> (string \<times> go_value) list \<Rightarrow> (string \<times> go_value) list option" where
  "flattenStruct (StructV n fs) = flattenFields fs []"
| "flattenStruct (PtrV (StructV n fs)) = flattenFields fs []"
| "flattenStruct _ = None"
| "flattenFields [] result = Some result"
| "flattenFields (StructField name ci iface val # rest) result =
     (if \<not> ci then flattenFields rest result
      else (case fieldKind (StructField name ci iface val) of
              reflect_Struct \<Rightarrow>
                (case flattenStruct val of
                   None \<Rightarrow> None
                 | Some nested \<Rightarrow>
                     flattenFields rest
                       (foldl (\<lambda>res (k, v). AList.update (name @ ''.'' @ k) v res) result nested))
            | _ \<Rightarrow> flattenFields rest (AList.update name val result)))"

text \<open>\<open>inferType\<close> maps Go values to CEL types.\<close>

fun inferType :: "go_value \<Rightarrow> cel_type" where
  "inferType (MapStringAnyV _) = decls_MapStringDyn"
| "inferType (StringV _) = decls_String"
| "inferType (IntV _) = decls_Int"
| "inferType (Int64V _) = decls_Int"
| "inferType (Float32V _) = decls_Double"
| "inferType (Float64V _) = decls_Double"
| "inferType (BoolV _) = decls_Bool"
| "inferType _ = decls_Dyn"

text \<open>
  \<open>buildEnv\<close>: the outer \<open>None\<close> is the panic of \<open>flattenStruct\<close>. Go ranges over
  the field map in an unspecified order; the declarations are listed in the order of the
  association list.
\<close>

definition buildEnv ::
  "('env, 'ast, 'prg) cel \<Rightarrow> go_value \<Rightarrow> (go_error + ('env \<times> (string \<times> go_value) list)) option" where
  "buildEnv c obj =
     (case flattenStruct obj of
        None \<Rightarrow> None
      | Some flds \<Rightarrow>
          (case NewEnv c (map (\<lambda>(name, val). (name, inferType val)) flds) of
             Inl err \<Rightarrow> Some (Inl err)
           | Inr env \<Rightarrow> Some (Inr (env, flds))))"

section \<open>Validate\<close>

definition extendChainPath :: "string \<Rightarrow> string \<Rightarrow> string" where
  "extendChainPath current next = (if current = '''' then next else current @ '' > '' @ next)"

text \<open>The variables the closure \<open>eval\<close> captures and mutates.\<close>

record eval_state =
  seen :: "string set"
  results :: "ValidationResult list"

text \<open>
  The closure \<open>eval\<close> of \<open>Validate\<close>: the loop over \<open>entries\<close> from index \<open>i\<close>
  (the closure itself is \<open>i = 0\<close>), on the captured state; it returns the state and the
  error it returns in Go.
\<close>

fun eval ::
  "bool \<Rightarrow> ('env, 'ast, 'prg) cel \<Rightarrow> 'env \<Rightarrow> (string \<times> go_value) list \<Rightarrow> ValidationMetadata \<Rightarrow>
   int \<Rightarrow> RuleEntry list \<Rightarrow> eval_state \<Rightarrow> eval_state \<times> go_error option" where
  "eval pe c env vars metadata i [] st = (st, None)"
| "eval pe c env vars metadata i (RuleEntry rule en fm th # rest) st =
     (if \<not> en \<or> rule \<in> seen st then eval pe c env vars metadata (i + 1) rest st
      else
        let st1 = st\<lparr>seen := insert rule (seen st)\<rparr> in
        (case Compile c env rule of
           Inl err \<Rightarrow>
             (let st2 = st1\<lparr>results := results st1 @
                    [\<lparr>Rule_res = rule, Passed = False, Error = Some err, Message = '''',
                      Metadata = \<lparr>StructName = StructName metadata,
                                  Operation = Operation metadata,
                                  ChainPath = ChainPath metadata @ '' > compileError'',
                                  RuleIndex = i,
                                  ParentRule = ParentRule metadata\<rparr>\<rparr>]\<rparr>
              in if \<not> pe then (st2, Some err)
                 else eval pe c env vars metadata (i + 1) rest st2)
         | Inr ast \<Rightarrow>
             (case Program c env ast of
                Inl err \<Rightarrow>
                  (let st2 = st1\<lparr>results := results st1 @
                         [\<lparr>Rule_res = rule, Passed = False, Error = Some err, Message = '''',
                           Metadata = \<lparr>StructName = StructName metadata,
                                       Operation = Operation metadata,
                                       ChainPath = ChainPath metadata @ '' > programError'',
                                       RuleIndex = i,
                                       ParentRule = ParentRule metadata\<rparr>\<rparr>]\<rparr>
                   in if \<not> pe then (st2, Some err)
                      else eval pe c env vars metadata (i + 1) rest st2)
              | Inr prg \<Rightarrow>
                  (case Eval c prg vars of
                     (out, err) \<Rightarrow>
                       (let passed = (err = None \<and> out = BoolVal True);
                            validationResult =
                              \<lparr>Rule_res = rule, Passed = passed, Error = err, Message = '''',
                               Metadata = \<lparr>StructName = StructName metadata,
                                           Operation = Operation metadata,
                                           ChainPath = ChainPath metadata,
                                           RuleIndex = i,
                                           ParentRule = ParentRule metadata\<rparr>\<rparr>;
                            validationResult =
                              (if \<not> passed then validationResult\<lparr>Message := fm\<rparr>
                               else validationResult);
                            st2 = st1\<lparr>results := results st1 @ [validationResult]\<rparr>
                        in if passed \<and> length th > 0
                           then
                             (let childMetadata =
                                    \<lparr>StructName = StructName metadata,
                                     Operation = Operation metadata,
                                     ChainPath = extendChainPath (ChainPath metadata) ''then'',
                                     RuleIndex = - 1,
                                     ParentRule = rule\<rparr>
                              in (case eval pe c env vars childMetadata 0 th st2 of
                                    (st3, cerr) \<Rightarrow>
                                      if cerr \<noteq> None \<and> \<not> pe then (st3, cerr)
                                      else eval pe c env vars metadata (i + 1) rest st3))
                           else eval pe c env vars metadata (i + 1) rest st2)))))"

text \<open>
  \<open>Validate\<close>. The outer \<open>None\<close> is a panic; otherwise the pair the Go function
  returns: the results (\<open>None\<close> is the nil slice) and the error.
\<close>

definition Validate ::
  "Validator \<Rightarrow> ('env, 'ast, 'prg) cel \<Rightarrow> go_value \<Rightarrow> RuleEntry list \<Rightarrow> ValidationMetadata \<Rightarrow>
   (ValidationResult list option \<times> go_error option) option" where
  "Validate v c obj rules metadata =
     (case buildEnv c obj of
        None \<Rightarrow> None
      | Some (Inl err) \<Rightarrow> Some (None, Some err)
      | Some (Inr (env, vars)) \<Rightarrow>
          (case eval (partialEval v) c env vars metadata 0 rules \<lparr>seen = {}, results = []\<rparr> of
             (st, err) \<Rightarrow> Some (Some (results st), err)))"

section \<open>Vocabulary of the properties\<close>

text \<open>Every entry of a rule tree, at any nesting depth, in traversal order.\<close>

fun all_entries :: "RuleEntry list \<Rightarrow> RuleEntry list" where
  "all_entries [] = []"
| "all_entries (RuleEntry r en fm th # es) = RuleEntry r en fm th # all_entries th @ all_entries es"

text \<open>
  What the two setup steps of \<open>eval\<close> (lines 85 and 105) do on a rule text, in the
  environment of the call: the compile or build error if there is one, and the marker the
  result's chain path gets.
\<close>

definition setupError :: "('env, 'ast, 'prg) cel \<Rightarrow> 'env \<Rightarrow> string \<Rightarrow> go_error option" where
  "setupError c env rule =
     (case Compile c env rule of
        Inl err \<Rightarrow> Some err
      | Inr ast \<Rightarrow> (case Program c env ast of Inl err \<Rightarrow> Some err | Inr prg \<Rightarrow> None))"

definition setupMarker :: "('env, 'ast, 'prg) cel \<Rightarrow> 'env \<Rightarrow> string \<Rightarrow> string" where
  "setupMarker c env rule =
     (case Compile c env rule of Inl err \<Rightarrow> '' > compileError'' | Inr ast \<Rightarrow> '' > programError'')"

text \<open>
  What execution (line 125) returns for a rule text that compiles and builds: the pair
  \<open>(out, err)\<close> of \<open>prg.Eval(vars)\<close>; \<open>None\<close> when the rule does not reach execution.
\<close>

definition execution ::
  "('env, 'ast, 'prg) cel \<Rightarrow> 'env \<Rightarrow> (string \<times> go_value) list \<Rightarrow> string \<Rightarrow>
   (ref_Val \<times> go_error option) option" where
  "execution c env vars rule =
     (case Compile c env rule of
        Inl err \<Rightarrow> None
      | Inr ast \<Rightarrow> (case Program c env ast of Inl err \<Rightarrow> None | Inr prg \<Rightarrow> Some (Eval c prg vars)))"

text \<open>The result appended on a compile or build failure (lines 87 and 107).\<close>

definition errorResult :: "string \<Rightarrow> go_error \<Rightarrow> ValidationMetadata \<Rightarrow> string \<Rightarrow> int \<Rightarrow> ValidationResult" where
  "errorResult rule err md marker i =
     \<lparr>Rule_res = rule, Passed = False, Error = Some err, Message = '''',
      Metadata = \<lparr>StructName = StructName md, Operation = Operation md,
                  ChainPath = ChainPath md @ marker, RuleIndex = i, ParentRule = ParentRule md\<rparr>\<rparr>"

text \<open>The result appended after execution (lines 126 to 143).\<close>

definition execResult ::
  "string \<Rightarrow> string \<Rightarrow> ref_Val \<Rightarrow> go_error option \<Rightarrow> ValidationMetadata \<Rightarrow> int \<Rightarrow> ValidationResult" where
  "execResult rule fm out err md i =
     \<lparr>Rule_res = rule, Passed = (err = None \<and> out = BoolVal True), Error = err,
      Message = (if err = None \<and> out = BoolVal True then '''' else fm),
      Metadata = \<lparr>StructName = StructName md, Operation = Operation md,
                  ChainPath = ChainPath md, RuleIndex = i, ParentRule = ParentRule md\<rparr>\<rparr>"

text \<open>The context the children of an entry are evaluated in (lines 146 to 152).\<close>

definition childMetadata :: "ValidationMetadata \<Rightarrow> string \<Rightarrow> ValidationMetadata" where
  "childMetadata md rule =
     \<lparr>StructName = StructName md, Operation = Operation md,
      ChainPath = extendChainPath (ChainPath md) ''then'', RuleIndex = - 1, ParentRule = rule\<rparr>"

text \<open>The state after an entry was marked seen and its result appended.\<close>

definition record_result :: "string \<Rightarrow> ValidationResult \<Rightarrow> eval_state \<Rightarrow> eval_state" where
  "record_result rule r st = \<lparr>seen = insert rule (seen st), results = results st @ [r]\<rparr>"

text \<open>
  A result \<open>r\<close> is the outcome of some enabled entry of the tree \<open>es\<close>: its rule text,
  and the \<open>passed\<close>, \<open>error\<close> and \<open>message\<close> fields that entry gets.
\<close>

definition produced ::
  "('env, 'ast, 'prg) cel \<Rightarrow> 'env \<Rightarrow> (string \<times> go_value) list \<Rightarrow> RuleEntry list \<Rightarrow>
   ValidationResult \<Rightarrow> bool" where
  "produced c env vars es r =
     (\<exists>e \<in> set (all_entries es). Enabled e \<and> Rule e = Rule_res r \<and>
        (case setupError c env (Rule e) of
           Some err \<Rightarrow> \<not> Passed r \<and> Error r = Some err \<and> Message r = ''''
         | None \<Rightarrow>
             (case execution c env vars (Rule e) of
                None \<Rightarrow> False
              | Some (out, xerr) \<Rightarrow>
                  Passed r = (xerr = None \<and> out = BoolVal True) \<and> Error r = xerr \<and>
                  Message r = (if Passed r then '''' else FailureMessage e))))"

text \<open>
  The state \<open>st'\<close> is \<open>st\<close> with the results \<open>new\<close> appended, each for a rule text
  that was not seen before and is seen now.
\<close>

definition extends ::
  "('env, 'ast, 'prg) cel \<Rightarrow> 'env \<Rightarrow> (string \<times> go_value) list \<Rightarrow> RuleEntry list \<Rightarrow>
   eval_state \<Rightarrow> ValidationResult list \<Rightarrow> eval_state \<Rightarrow> bool" where
  "extends c env vars es st new st' =
     (results st' = results st @ new \<and> seen st' = seen st \<union> Rule_res ` set new \<and>
      Rule_res ` set new \<inter> seen st = {} \<and> distinct (map Rule_res new) \<and>
      (\<forall>r \<in> set new. produced c env vars es r))"

text \<open>
  The new results \<open>new\<close> and the returned error \<open>err\<close> of a run agree: with no error no
  result is a compile or build failure; with the error \<open>e\<close> the last result is the
  failure \<open>e\<close> of its rule and no result before it is a failure.
\<close>

definition ends_at_failure ::
  "('env, 'ast, 'prg) cel \<Rightarrow> 'env \<Rightarrow> ValidationResult list \<Rightarrow> go_error option \<Rightarrow> bool" where
  "ends_at_failure c env new err =
     (case err of
        None \<Rightarrow> (\<forall>r \<in> set new. setupError c env (Rule_res r) = None)
      | Some e \<Rightarrow>
          new \<noteq> [] \<and> setupError c env (Rule_res (last new)) = Some e \<and>
          \<not> Passed (last new) \<and> Error (last new) = Some e \<and>
          (\<forall>r \<in> set (butlast new). setupError c env (Rule_res r) = None))"

text \<open>
  Rule resolution in the specification's words: the enabled entries of the \<open>Default\<close>
  bucket, then those of the operation bucket, the first occurrence of each expression
  text only, each entry rebuilt with its enabled children, recursively. An absent bucket
  contributes nothing.
\<close>

fun spec_prune :: "RuleEntry \<Rightarrow> RuleEntry" where
  "spec_prune (RuleEntry r en fm th) = RuleEntry r en fm (map spec_prune (filter Enabled th))"

fun first_by_rule :: "RuleEntry list \<Rightarrow> RuleEntry list" where
  "first_by_rule [] = []"
| "first_by_rule (e # es) = e # first_by_rule (filter (\<lambda>x. Rule x \<noteq> Rule e) es)"

definition bucket :: "(string \<times> RuleEntry list) list \<Rightarrow> string \<Rightarrow> RuleEntry list" where
  "bucket structRules operation = (case map_of structRules operation of None \<Rightarrow> [] | Some rs \<Rightarrow> rs)"

definition spec_GetRulesFor :: "RuleSetMap \<Rightarrow> string \<Rightarrow> string \<Rightarrow> RuleEntry list" where
  "spec_GetRulesFor rules name operation =
     (case rules name of
        None \<Rightarrow> []
      | Some structRules \<Rightarrow>
          map spec_prune
            (first_by_rule (filter Enabled (bucket structRules ''Default'') @
                            filter Enabled (bucket structRules operation))))"

text \<open>
  The key and value pairs a record's fields are flattened to, in field order: a field
  that cannot be introspected gives none; a field whose kind is struct (its declared
  type is not an interface type and its value is a struct) gives the pairs of its own
  fields with its name and a dot put before each key; every other field, a pointer to a
  struct and a field of interface type included, gives the one pair of its name and its
  value. Assigned to a map in this order, a later pair overwrites an earlier one with
  the same key.
\<close>

fun flattened_paths :: "go_field list \<Rightarrow> (string \<times> go_value) list" where
  "flattened_paths [] = []"
| "flattened_paths (StructField name ci iface val # rest) =
     (if \<not> ci then []
      else if iface then [(name, val)]
      else (case val of
              StructV n fs \<Rightarrow> map (\<lambda>(k, v). (name @ ''.'' @ k, v)) (flattened_paths fs)
            | _ \<Rightarrow> [(name, val)])) @
     flattened_paths rest"

text \<open>
  The traversal in the specification's words (section 4.3): depth-first, left to right
  over the given rules and, recursively, over the children of each entry that passes;
  an entry that is disabled, or whose expression text was evaluated before anywhere in
  the call, is skipped. A visit is an entry with the context and the position in its
  sibling list it is evaluated at. The children's context extends the chain path by the
  segment \<open>then\<close>, resets the rule index to \<open>-1\<close> and has the entry's expression text as
  parent rule.
\<close>

type_synonym visit = "RuleEntry \<times> ValidationMetadata \<times> int"

definition spec_child_context :: "ValidationMetadata \<Rightarrow> string \<Rightarrow> ValidationMetadata" where
  "spec_child_context md rule =
     \<lparr>StructName = StructName md, Operation = Operation md,
      ChainPath = (if ChainPath md = '''' then ''then'' else ChainPath md @ '' > then''),
      RuleIndex = - 1, ParentRule = rule\<rparr>"

fun spec_traversal ::
  "(string \<Rightarrow> bool) \<Rightarrow> ValidationMetadata \<Rightarrow> int \<Rightarrow> RuleEntry list \<Rightarrow> string set \<Rightarrow> visit list" where
  "spec_traversal passing md i [] sn = []"
| "spec_traversal passing md i (RuleEntry rule en fm th # rest) sn =
     (if \<not> en \<or> rule \<in> sn then spec_traversal passing md (i + 1) rest sn
      else
        let below = (if passing rule
                     then spec_traversal passing (spec_child_context md rule) 0 th (insert rule sn)
                     else [])
        in (RuleEntry rule en fm th, md, i) # below @
           spec_traversal passing md (i + 1) rest
             (insert rule sn \<union> (\<lambda>v. Rule (fst v)) ` set below))"

text \<open>An expression passes when it compiles, builds and executes to \<open>true\<close> without error.\<close>

definition passes ::
  "('env, 'ast, 'prg) cel \<Rightarrow> 'env \<Rightarrow> (string \<times> go_value) list \<Rightarrow> string \<Rightarrow> bool" where
  "passes c env vars rule = (execution c env vars rule = Some (BoolVal True, None))"

text \<open>
  The result of a visit: a compile or a build failure gives \<open>passed = false\<close>, the error
  and the marked chain path; an execution gives \<open>passed\<close> as the code computes it, the
  execution error if any, and the entry's failure message whenever it did not pass.
\<close>

fun visit_result ::
  "('env, 'ast, 'prg) cel \<Rightarrow> 'env \<Rightarrow> (string \<times> go_value) list \<Rightarrow> visit \<Rightarrow> ValidationResult" where
  "visit_result c env vars (e, md, i) =
     (case Compile c env (Rule e) of
        Inl err \<Rightarrow>
          \<lparr>Rule_res = Rule e, Passed = False, Error = Some err, Message = '''',
           Metadata = md\<lparr>ChainPath := ChainPath md @ '' > compileError'', RuleIndex := i\<rparr>\<rparr>
      | Inr ast \<Rightarrow>
          (case Program c env ast of
             Inl err \<Rightarrow>
               \<lparr>Rule_res = Rule e, Passed = False, Error = Some err, Message = '''',
                Metadata = md\<lparr>ChainPath := ChainPath md @ '' > programError'', RuleIndex := i\<rparr>\<rparr>
           | Inr prg \<Rightarrow>
               (case Eval c prg vars of
                  (out, xerr) \<Rightarrow>
                    \<lparr>Rule_res = Rule e, Passed = (xerr = None \<and> out = BoolVal True),
                     Error = xerr,
                     Message = (if xerr = None \<and> out = BoolVal True then ''''
                                else FailureMessage e),
                     Metadata = md\<lparr>RuleIndex := i\<rparr>\<rparr>)))"

text \<open>
  What the complete traversal of a call records, and its results that are a compile or
  build failure. A list up to and with its first element of a kind.
\<close>

definition spec_results ::
  "('env, 'ast, 'prg) cel \<Rightarrow> 'env \<Rightarrow> (string \<times> go_value) list \<Rightarrow> ValidationMetadata \<Rightarrow>
   RuleEntry list \<Rightarrow> ValidationResult list" where
  "spec_results c env vars md rules =
     map (visit_result c env vars) (spec_traversal (passes c env vars) md 0 rules {})"

definition is_setup_failure :: "('env, 'ast, 'prg) cel \<Rightarrow> 'env \<Rightarrow> ValidationResult \<Rightarrow> bool" where
  "is_setup_failure c env r = (setupError c env (Rule_res r) \<noteq> None)"

fun upto_first :: "('a \<Rightarrow> bool) \<Rightarrow> 'a list \<Rightarrow> 'a list" where
  "upto_first P [] = []"
| "upto_first P (x # xs) = (if P x then [x] else x # upto_first P xs)"


section \<open>Concrete inputs\<close>

text \<open>
  The record of the repository's tests: \<open>Sample{Active: true, Age: 21, Email:
  "test@example.com", Details: map[string]string{"type": "admin"}}\<close>, what it flattens
  to, and the declarations \<open>buildEnv\<close> makes for it (the map of strings is declared
  \<open>Dyn\<close>).
\<close>

definition demo_obj :: go_value where
  "demo_obj =
     StructV ''Sample''
       [StructField ''Active'' True False (BoolV True),
        StructField ''Age'' True False (IntV 21),
        StructField ''Email'' True False (StringV ''test@example.com''),
        StructField ''Details'' True False (MapStringStringV [(''type'', ''admin'')])]"

definition demo_vars :: "(string \<times> go_value) list" where
  "demo_vars =
     [(''Active'', BoolV True), (''Age'', IntV 21), (''Email'', StringV ''test@example.com''),
      (''Details'', MapStringStringV [(''type'', ''admin'')])]"

definition demo_env :: "(string \<times> cel_type) list" where
  "demo_env =
     [(''Active'', decls_Bool), (''Age'', decls_Int), (''Email'', decls_String),
      (''Details'', decls_Dyn)]"

text \<open>
  A stand-in for the CEL library on the rule texts of the examples. An environment is
  its list of declarations. A rule compiles when the variable it reads is declared, and
  to itself; every compiled rule builds; execution reads the variable from the values:
  the comparisons on \<open>Age\<close> and \<open>Active\<close> give a boolean, the rule \<open>Age\<close> gives a
  value that is not a boolean, and selecting a key that the map \<open>Details\<close> does not have
  raises at run time.
\<close>

definition demo_variable :: "string \<Rightarrow> string option" where
  "demo_variable rule =
     (if rule = ''Age > 18'' \<or> rule = ''Age < 18'' \<or> rule = ''Age'' then Some ''Age''
      else if rule = ''Active == true'' then Some ''Active''
      else if rule = ''Details.missing == 1'' then Some ''Details''
      else if rule = ''UnknownField == true'' then Some ''UnknownField''
      else None)"

definition demo_Eval :: "string \<Rightarrow> (string \<times> go_value) list \<Rightarrow> ref_Val \<times> go_error option" where
  "demo_Eval prg vars =
     (if prg = ''Age > 18''
      then (case map_of vars ''Age'' of
              Some (IntV n) \<Rightarrow> (BoolVal (18 < n), None)
            | _ \<Rightarrow> (OtherVal ''error'', Some (GoError ''no such overload'')))
      else if prg = ''Age < 18''
      then (case map_of vars ''Age'' of
              Some (IntV n) \<Rightarrow> (BoolVal (n < 18), None)
            | _ \<Rightarrow> (OtherVal ''error'', Some (GoError ''no such overload'')))
      else if prg = ''Age''
      then (case map_of vars ''Age'' of
              Some (IntV n) \<Rightarrow> (OtherVal ''int'', None)
            | _ \<Rightarrow> (OtherVal ''dyn'', None))
      else if prg = ''Active == true''
      then (case map_of vars ''Active'' of
              Some (BoolV b) \<Rightarrow> (BoolVal b, None)
            | _ \<Rightarrow> (OtherVal ''error'', Some (GoError ''no such overload'')))
      else if prg = ''Details.missing == 1''
      then (case map_of vars ''Details'' of
              Some (MapStringStringV m) \<Rightarrow>
                (case map_of m ''missing'' of
                   None \<Rightarrow> (OtherVal ''error'', Some (GoError ''no such key: missing''))
                 | Some s \<Rightarrow> (BoolVal False, None))
            | _ \<Rightarrow> (OtherVal ''error'', Some (GoError ''no such overload'')))
      else (OtherVal ''error'', Some (GoError ''no such overload'')))"

definition demo_cel :: "((string \<times> cel_type) list, string, string) cel" where
  "demo_cel =
     \<lparr>NewEnv = (\<lambda>ds. Inr ds),
      Compile = (\<lambda>env rule.
                   case demo_variable rule of
                     None \<Rightarrow> Inl (GoError ''syntax error'')
                   | Some x \<Rightarrow>
                       if x \<in> fst ` set env then Inr rule
                       else Inl (GoError (''undeclared reference to '' @ x))),
      Program = (\<lambda>env ast. Inr ast),
      Eval = demo_Eval\<rparr>"

text \<open>The same library with an environment constructor that fails.\<close>

definition failing_cel :: "((string \<times> cel_type) list, string, string) cel" where
  "failing_cel = demo_cel\<lparr>NewEnv := (\<lambda>ds. Inl (GoError ''bad declaration''))\<rparr>"

definition demo_md :: ValidationMetadata where
  "demo_md = \<lparr>StructName = ''Sample'', Operation = ''Create'', ChainPath = '''',
              RuleIndex = - 1, ParentRule = ''''\<rparr>"

definition strict :: Validator where
  "strict = NewValidator []"

definition lenient :: Validator where
  "lenient = NewValidator [WithPartialEval]"

text \<open>
  A rule whose execution raises on the record, twice with different failure messages:
  the second entry repeats the text of the first and is skipped.
\<close>

definition raising_rules :: "RuleEntry list" where
  "raising_rules =
     [RuleEntry ''Details.missing == 1'' True ''needs detail'' [],
      RuleEntry ''Details.missing == 1'' True ''another message'' []]"

definition raising_results :: "ValidationResult list" where
  "raising_results =
     [\<lparr>Rule_res = ''Details.missing == 1'', Passed = False,
       Error = Some (GoError ''no such key: missing''), Message = ''needs detail'',
       Metadata = \<lparr>StructName = ''Sample'', Operation = ''Create'', ChainPath = '''',
                   RuleIndex = 0, ParentRule = ''''\<rparr>\<rparr>]"

text \<open>
  A tree that repeats rule texts across levels: the child \<open>Age > 18\<close> repeats its parent,
  the second top-level entry repeats the first child, the last entry is disabled.
\<close>

definition dup_rules :: "RuleEntry list" where
  "dup_rules =
     [RuleEntry ''Age > 18'' True ''''
        [RuleEntry ''Active == true'' True '''' [], RuleEntry ''Age > 18'' True '''' []],
      RuleEntry ''Active == true'' True '''' [],
      RuleEntry ''Age < 18'' False ''too young'' []]"

definition dup_results :: "ValidationResult list" where
  "dup_results =
     [\<lparr>Rule_res = ''Age > 18'', Passed = True, Error = None, Message = '''',
       Metadata = \<lparr>StructName = ''Sample'', Operation = ''Create'', ChainPath = '''',
                   RuleIndex = 0, ParentRule = ''''\<rparr>\<rparr>,
      \<lparr>Rule_res = ''Active == true'', Passed = True, Error = None, Message = '''',
       Metadata = \<lparr>StructName = ''Sample'', Operation = ''Create'', ChainPath = ''then'',
                   RuleIndex = 0, ParentRule = ''Age > 18''\<rparr>\<rparr>]"

text \<open>One rule of each kind of outcome of an execution.\<close>

definition mixed_rules :: "RuleEntry list" where
  "mixed_rules =
     [RuleEntry ''Age > 18'' True ''must be adult'' [],
      RuleEntry ''Age < 18'' True ''must be minor'' [],
      RuleEntry ''Age'' True ''must be a condition'' [],
      RuleEntry ''Details.missing == 1'' True ''needs detail'' []]"

definition mixed_results :: "ValidationResult list" where
  "mixed_results =
     [\<lparr>Rule_res = ''Age > 18'', Passed = True, Error = None, Message = '''',
       Metadata = \<lparr>StructName = ''Sample'', Operation = ''Create'', ChainPath = '''',
                   RuleIndex = 0, ParentRule = ''''\<rparr>\<rparr>,
      \<lparr>Rule_res = ''Age < 18'', Passed = False, Error = None, Message = ''must be minor'',
       Metadata = \<lparr>StructName = ''Sample'', Operation = ''Create'', ChainPath = '''',
                   RuleIndex = 1, ParentRule = ''''\<rparr>\<rparr>,
      \<lparr>Rule_res = ''Age'', Passed = False, Error = None, Message = ''must be a condition'',
       Metadata = \<lparr>StructName = ''Sample'', Operation = ''Create'', ChainPath = '''',
                   RuleIndex = 2, ParentRule = ''''\<rparr>\<rparr>,
      \<lparr>Rule_res = ''Details.missing == 1'', Passed = False,
       Error = Some (GoError ''no such key: missing''), Message = ''needs detail'',
       Metadata = \<lparr>StructName = ''Sample'', Operation = ''Create'', ChainPath = '''',
                   RuleIndex = 3, ParentRule = ''''\<rparr>\<rparr>]"

text \<open>
  The three rules of the repository's first test, an invalid rule first; what the call
  records without partial evaluation and what it records after that with it.
\<close>

definition invalid_first_rules :: "RuleEntry list" where
  "invalid_first_rules =
     [RuleEntry ''UnknownField == true'' True '''' [],
      RuleEntry ''Age > 18'' True '''' [],
      RuleEntry ''Active == true'' True '''' []]"

definition invalid_first_results :: "ValidationResult list" where
  "invalid_first_results =
     [\<lparr>Rule_res = ''UnknownField == true'', Passed = False,
       Error = Some (GoError ''undeclared reference to UnknownField''), Message = '''',
       Metadata = \<lparr>StructName = ''Sample'', Operation = ''Create'',
                   ChainPath = '' > compileError'', RuleIndex = 0, ParentRule = ''''\<rparr>\<rparr>]"

definition invalid_first_remaining :: "ValidationResult list" where
  "invalid_first_remaining =
     [\<lparr>Rule_res = ''Age > 18'', Passed = True, Error = None, Message = '''',
       Metadata = \<lparr>StructName = ''Sample'', Operation = ''Create'', ChainPath = '''',
                   RuleIndex = 1, ParentRule = ''''\<rparr>\<rparr>,
      \<lparr>Rule_res = ''Active == true'', Passed = True, Error = None, Message = '''',
       Metadata = \<lparr>StructName = ''Sample'', Operation = ''Create'', ChainPath = '''',
                   RuleIndex = 2, ParentRule = ''''\<rparr>\<rparr>]"

text \<open>
  A passing parent whose first child does not compile, followed by another top-level
  rule; what the call records without partial evaluation and what it records after
  that with it.
\<close>

definition halting_rules :: "RuleEntry list" where
  "halting_rules =
     [RuleEntry ''Age > 18'' True ''must be adult''
        [RuleEntry ''UnknownField == true'' True '''' [],
         RuleEntry ''Active == true'' True '''' []],
      RuleEntry ''Age < 18'' True ''must be minor'' []]"

definition halting_results :: "ValidationResult list" where
  "halting_results =
     [\<lparr>Rule_res = ''Age > 18'', Passed = True, Error = None, Message = '''',
       Metadata = \<lparr>StructName = ''Sample'', Operation = ''Create'', ChainPath = '''',
                   RuleIndex = 0, ParentRule = ''''\<rparr>\<rparr>,
      \<lparr>Rule_res = ''UnknownField == true'', Passed = False,
       Error = Some (GoError ''undeclared reference to UnknownField''), Message = '''',
       Metadata = \<lparr>StructName = ''Sample'', Operation = ''Create'',
                   ChainPath = ''then > compileError'', RuleIndex = 0,
                   ParentRule = ''Age > 18''\<rparr>\<rparr>]"

definition remaining_results :: "ValidationResult list" where
  "remaining_results =
     [\<lparr>Rule_res = ''Active == true'', Passed = True, Error = None, Message = '''',
       Metadata = \<lparr>StructName = ''Sample'', Operation = ''Create'', ChainPath = ''then'',
                   RuleIndex = 1, ParentRule = ''Age > 18''\<rparr>\<rparr>,
      \<lparr>Rule_res = ''Age < 18'', Passed = False, Error = None, Message = ''must be minor'',
       Metadata = \<lparr>StructName = ''Sample'', Operation = ''Create'', ChainPath = '''',
                   RuleIndex = 1, ParentRule = ''''\<rparr>\<rparr>]"






text \<open>
  A repository for the type \<open>Sample\<close>: the \<open>Default\<close> bucket has a rule with an enabled
  child (which has a disabled child of its own) and a disabled child, and a disabled
  rule; the \<open>Create\<close> bucket has a new rule and repeats a \<open>Default\<close> rule text.
\<close>

definition demo_repo :: RuleSetMap where
  "demo_repo =
     [''Sample'' \<mapsto>
        [(''Default'',
          [RuleEntry ''Count > 0'' True ''''
             [RuleEntry ''Name != x'' True '''' [RuleEntry ''Name != y'' False '''' []],
              RuleEntry ''Name != test'' False '''' [RuleEntry ''Name != z'' True '''' []]],
           RuleEntry ''falseRule'' False '''' []]),
         (''Create'',
          [RuleEntry ''Count < 100'' True '''' [],
           RuleEntry ''Count > 0'' True ''repeated'' []])]]"

definition demo_resolved :: "RuleEntry list" where
  "demo_resolved =
     [RuleEntry ''Count > 0'' True '''' [RuleEntry ''Name != x'' True '''' []],
      RuleEntry ''Count < 100'' True '''' []]"

text \<open>A repository whose type \<open>Sample\<close> has the single bucket \<open>Update\<close>.\<close>

definition single_repo :: RuleSetMap where
  "single_repo = [''Sample'' \<mapsto> [(''Update'', [RuleEntry ''Age > 18'' True '''' []])]]"

text \<open>
  A user record with an unexported field and an address, as a nested struct, behind a
  pointer, and in a field of interface type.
\<close>

definition address :: go_value where
  "address = StructV ''Address'' [StructField ''City'' True False (StringV ''Toronto'')]"

definition plain_fields :: "go_field list" where
  "plain_fields =
     [StructField ''Name'' True False (StringV ''Ann''),
      StructField ''secret'' False False (StringV ''hidden''),
      StructField ''Address'' True False address]"

definition pointer_fields :: "go_field list" where
  "pointer_fields =
     [StructField ''Name'' True False (StringV ''Ann''),
      StructField ''secret'' False False (StringV ''hidden''),
      StructField ''Address'' True False (PtrV address)]"

definition interface_fields :: "go_field list" where
  "interface_fields =
     [StructField ''Name'' True False (StringV ''Ann''),
      StructField ''secret'' False False (StringV ''hidden''),
      StructField ''Address'' True True address]"

section \<open>The loop of \<open>eval\<close>, case by case\<close>

lemma setupError_cases:
  obtains (compile) err where "Compile c env rule = Inl err" "setupError c env rule = Some err"
      "setupMarker c env rule = '' > compileError''"
    | (program) ast err where "Compile c env rule = Inr ast" "Program c env ast = Inl err"
      "setupError c env rule = Some err" "setupMarker c env rule = '' > programError''"
    | (exec) ast prg out xerr where "Compile c env rule = Inr ast" "Program c env ast = Inr prg"
      "Eval c prg vars = (out, xerr)" "setupError c env rule = None"
      "execution c env vars rule = Some (out, xerr)"
proof (cases "Compile c env rule")
  case (Inl err)
  then show ?thesis using compile by (simp add: setupError_def setupMarker_def)
next
  case (Inr ast)
  show ?thesis
  proof (cases "Program c env ast")
    case (Inl err)
    then show ?thesis using Inr program by (simp add: setupError_def setupMarker_def)
  next
    case prg: (Inr prg)
    obtain out xerr where "Eval c prg vars = (out, xerr)" by (cases "Eval c prg vars")
    then show ?thesis using Inr prg exec by (simp add: setupError_def execution_def)
  qed
qed

lemma execution_setupError: "execution c env vars rule = Some x \<Longrightarrow> setupError c env rule = None"
  by (auto simp: execution_def setupError_def split: sum.splits)

lemma setupError_execution: "setupError c env rule = Some e \<Longrightarrow> execution c env vars rule = None"
  by (auto simp: execution_def setupError_def split: sum.splits)

lemma eval_Cons_skip:
  "\<not> en \<or> rule \<in> seen st \<Longrightarrow>
   eval pe c env vars md i (RuleEntry rule en fm th # rest) st = eval pe c env vars md (i + 1) rest st"
  by simp

lemma eval_Cons_setup:
  assumes "en" "rule \<notin> seen st" "setupError c env rule = Some err"
  shows "eval pe c env vars md i (RuleEntry rule en fm th # rest) st =
     (if pe then eval pe c env vars md (i + 1) rest
                   (record_result rule (errorResult rule err md (setupMarker c env rule) i) st)
      else (record_result rule (errorResult rule err md (setupMarker c env rule) i) st, Some err))"
proof (cases rule: setupError_cases [where c = c and env = env and rule = rule and vars = vars])
  case (compile e)
  then show ?thesis using assms
    by (cases st) (simp add: Let_def record_result_def errorResult_def)
next
  case (program ast e)
  then show ?thesis using assms
    by (cases st) (simp add: Let_def record_result_def errorResult_def)
next
  case (exec ast prg out xerr)
  then show ?thesis using assms by simp
qed

lemma eval_Cons_execution:
  assumes "en" "rule \<notin> seen st" "execution c env vars rule = Some (out, xerr)"
  shows "eval pe c env vars md i (RuleEntry rule en fm th # rest) st =
     (if xerr = None \<and> out = BoolVal True \<and> th \<noteq> []
      then (case eval pe c env vars (childMetadata md rule) 0 th
                   (record_result rule (execResult rule fm out xerr md i) st) of
              (st3, cerr) \<Rightarrow>
                if cerr \<noteq> None \<and> \<not> pe then (st3, cerr)
                else eval pe c env vars md (i + 1) rest st3)
      else eval pe c env vars md (i + 1) rest
             (record_result rule (execResult rule fm out xerr md i) st))"
proof (cases rule: setupError_cases [where c = c and env = env and rule = rule and vars = vars])
  case (compile e)
  then show ?thesis using assms setupError_execution [of c env rule e vars] by simp
next
  case (program ast e)
  then show ?thesis using assms setupError_execution [of c env rule e vars] by simp
next
  case (exec ast prg out' xerr')
  then show ?thesis using assms
    by (cases st) (simp add: Let_def record_result_def execResult_def childMetadata_def)
qed

declare eval.simps(2) [simp del]

lemma entries_induct [case_names Nil Cons]:
  assumes "P []"
    and "\<And>rule en fm th rest. P th \<Longrightarrow> P rest \<Longrightarrow> P (RuleEntry rule en fm th # rest)"
  shows "P es"
  using assms by (induction es rule: all_entries.induct) auto

text \<open>
  The six ways one round of the loop ends: the entry is skipped; a setup failure halts;
  a setup failure is recorded and the loop goes on; the entry is executed and its
  children are not entered; the children halt the call; the children return and the
  loop goes on.
\<close>

lemma eval_Cons_cases [consumes 1, case_names skip halt cont leaf child_halt child_cont]:
  assumes ev: "eval pe c env vars md i (RuleEntry rule en fm th # rest) st = (st', err)"
  obtains
    (skip) "\<not> en \<or> rule \<in> seen st" "eval pe c env vars md (i + 1) rest st = (st', err)"
  | (halt) e where "en" "rule \<notin> seen st" "setupError c env rule = Some e" "\<not> pe"
      "st' = record_result rule (errorResult rule e md (setupMarker c env rule) i) st" "err = Some e"
  | (cont) e where "en" "rule \<notin> seen st" "setupError c env rule = Some e" "pe"
      "eval pe c env vars md (i + 1) rest
         (record_result rule (errorResult rule e md (setupMarker c env rule) i) st) = (st', err)"
  | (leaf) out xerr where "en" "rule \<notin> seen st" "execution c env vars rule = Some (out, xerr)"
      "\<not> (xerr = None \<and> out = BoolVal True \<and> th \<noteq> [])"
      "eval pe c env vars md (i + 1) rest
         (record_result rule (execResult rule fm out xerr md i) st) = (st', err)"
  | (child_halt) e where "en" "rule \<notin> seen st"
      "execution c env vars rule = Some (BoolVal True, None)" "th \<noteq> []" "\<not> pe" "err = Some e"
      "eval pe c env vars (childMetadata md rule) 0 th
         (record_result rule (execResult rule fm (BoolVal True) None md i) st) = (st', Some e)"
  | (child_cont) st3 cerr where "en" "rule \<notin> seen st"
      "execution c env vars rule = Some (BoolVal True, None)" "th \<noteq> []" "cerr = None \<or> pe"
      "eval pe c env vars (childMetadata md rule) 0 th
         (record_result rule (execResult rule fm (BoolVal True) None md i) st) = (st3, cerr)"
      "eval pe c env vars md (i + 1) rest st3 = (st', err)"
proof (cases "\<not> en \<or> rule \<in> seen st")
  case True
  then show ?thesis using ev skip by (simp only: eval_Cons_skip)
next
  case False
  then have en: "en" and unseen: "rule \<notin> seen st" by auto
  show ?thesis
  proof (cases "setupError c env rule")
    case (Some e)
    note rw = eval_Cons_setup [OF en unseen Some, of pe vars md i fm th rest]
    show ?thesis
    proof (cases pe)
      case True
      then have "eval pe c env vars md (i + 1) rest
         (record_result rule (errorResult rule e md (setupMarker c env rule) i) st) = (st', err)"
        using ev rw by simp
      then show ?thesis using cont en unseen Some True by blast
    next
      case False
      then have "st' = record_result rule (errorResult rule e md (setupMarker c env rule) i) st"
        and "err = Some e"
        using ev rw by simp_all
      then show ?thesis using halt en unseen Some False by blast
    qed
  next
    case None
    then obtain out xerr where ex: "execution c env vars rule = Some (out, xerr)"
      by (cases rule: setupError_cases [where c = c and env = env and rule = rule and vars = vars])
         simp_all
    note rw = eval_Cons_execution [OF en unseen ex, of pe md i fm th rest]
    show ?thesis
    proof (cases "xerr = None \<and> out = BoolVal True \<and> th \<noteq> []")
      case False
      have "eval pe c env vars md (i + 1) rest
          (record_result rule (execResult rule fm out xerr md i) st) = (st', err)"
        using ev unfolding rw if_not_P [OF False] .
      then show ?thesis using leaf en unseen ex False by blast
    next
      case True
      then have ex': "execution c env vars rule = Some (BoolVal True, None)" and th: "th \<noteq> []"
        and [simp]: "xerr = None" "out = BoolVal True"
        using ex by simp_all
      obtain st3 cerr where ch: "eval pe c env vars (childMetadata md rule) 0 th
         (record_result rule (execResult rule fm (BoolVal True) None md i) st) = (st3, cerr)"
        by (cases "eval pe c env vars (childMetadata md rule) 0 th
         (record_result rule (execResult rule fm (BoolVal True) None md i) st)")
      show ?thesis
      proof (cases "cerr \<noteq> None \<and> \<not> pe")
        case True
        then obtain e where e: "cerr = Some e" by auto
        have "st' = st3" "err = Some e" using ev rw ch True th e by simp_all
        then show ?thesis using child_halt en unseen ex' th True ch e by blast
      next
        case False
        then have "eval pe c env vars md (i + 1) rest st3 = (st', err)"
          using ev rw ch th by auto
        then show ?thesis using child_cont [OF en unseen ex' th _ ch] False by blast
      qed
    qed
  qed
qed

section \<open>Results only grow, one per newly seen rule text\<close>

lemma produced_mono:
  "produced c env vars es r \<Longrightarrow> set (all_entries es) \<subseteq> set (all_entries es') \<Longrightarrow>
   produced c env vars es' r"
  unfolding produced_def by blast

lemma produced_Then:
  "produced c env vars th r \<Longrightarrow> produced c env vars (RuleEntry rule en fm th # rest) r"
  by (erule produced_mono) auto

lemma produced_rest:
  "produced c env vars rest r \<Longrightarrow> produced c env vars (RuleEntry rule en fm th # rest) r"
  by (erule produced_mono) auto

lemma produced_head_error:
  "en \<Longrightarrow> setupError c env rule = Some e \<Longrightarrow>
   produced c env vars (RuleEntry rule en fm th # rest) (errorResult rule e md marker i)"
  by (simp add: produced_def errorResult_def)

lemma produced_head_exec:
  "en \<Longrightarrow> execution c env vars rule = Some (out, xerr) \<Longrightarrow>
   produced c env vars (RuleEntry rule en fm th # rest) (execResult rule fm out xerr md i)"
  by (simp add: produced_def execResult_def execution_setupError)

lemma Rule_res_errorResult [simp]: "Rule_res (errorResult rule e md marker i) = rule"
  by (simp add: errorResult_def)

lemma Rule_res_execResult [simp]: "Rule_res (execResult rule fm out xerr md i) = rule"
  by (simp add: execResult_def)

lemma extends_refl: "extends c env vars es st [] st"
  by (simp add: extends_def)

lemma extends_rest:
  "extends c env vars rest st new st' \<Longrightarrow>
   extends c env vars (RuleEntry rule en fm th # rest) st new st'"
  by (simp add: extends_def produced_rest)

lemma extends_Then:
  "extends c env vars th st new st' \<Longrightarrow>
   extends c env vars (RuleEntry rule en fm th # rest) st new st'"
  by (simp add: extends_def produced_Then)

lemma extends_record:
  "rule \<notin> seen st \<Longrightarrow> Rule_res r = rule \<Longrightarrow> produced c env vars es r \<Longrightarrow>
   extends c env vars es st [r] (record_result rule r st)"
  by (simp add: extends_def record_result_def)

lemma extends_trans:
  "extends c env vars es st new1 st1 \<Longrightarrow> extends c env vars es st1 new2 st2 \<Longrightarrow>
   extends c env vars es st (new1 @ new2) st2"
  unfolding extends_def by (intro conjI) (auto simp: image_Un)

lemma extends_head_error:
  "en \<Longrightarrow> rule \<notin> seen st \<Longrightarrow> setupError c env rule = Some e \<Longrightarrow>
   extends c env vars (RuleEntry rule en fm th # rest) st [errorResult rule e md marker i]
     (record_result rule (errorResult rule e md marker i) st)"
  by (rule extends_record [OF _ Rule_res_errorResult produced_head_error])

lemma extends_head_exec:
  "en \<Longrightarrow> rule \<notin> seen st \<Longrightarrow> execution c env vars rule = Some (out, xerr) \<Longrightarrow>
   extends c env vars (RuleEntry rule en fm th # rest) st [execResult rule fm out xerr md i]
     (record_result rule (execResult rule fm out xerr md i) st)"
  by (rule extends_record [OF _ Rule_res_execResult produced_head_exec])

lemma eval_extends:
  "eval pe c env vars md i es st = (st', err) \<Longrightarrow> \<exists>new. extends c env vars es st new st'"
proof (induction es arbitrary: md i st st' err rule: entries_induct)
  case Nil
  then have "st' = st" by simp
  then show ?case by (auto intro!: exI [of _ "[]"] extends_refl)
next
  case (Cons rule en fm th rest)
  let ?es = "RuleEntry rule en fm th # rest"
  from Cons.prems show ?case
  proof (cases rule: eval_Cons_cases)
    case skip
    from Cons.IH(2) [OF skip(2)] obtain new where "extends c env vars rest st new st'" ..
    then have "extends c env vars ?es st new st'" by (rule extends_rest)
    then show ?thesis ..
  next
    case (halt e)
    have "extends c env vars ?es st [errorResult rule e md (setupMarker c env rule) i] st'"
      unfolding halt(5) by (rule extends_head_error [OF halt(1) halt(2) halt(3)])
    then show ?thesis ..
  next
    case (cont e)
    from Cons.IH(2) [OF cont(5)] obtain new where "extends c env vars rest
       (record_result rule (errorResult rule e md (setupMarker c env rule) i) st) new st'" ..
    then have "extends c env vars ?es st
       ([errorResult rule e md (setupMarker c env rule) i] @ new) st'"
      by (intro extends_trans [OF extends_head_error [OF cont(1) cont(2) cont(3)]] extends_rest)
    then show ?thesis ..
  next
    case (leaf out xerr)
    from Cons.IH(2) [OF leaf(5)] obtain new where "extends c env vars rest
       (record_result rule (execResult rule fm out xerr md i) st) new st'" ..
    then have "extends c env vars ?es st ([execResult rule fm out xerr md i] @ new) st'"
      by (intro extends_trans [OF extends_head_exec [OF leaf(1) leaf(2) leaf(3)]] extends_rest)
    then show ?thesis ..
  next
    case (child_halt e)
    from Cons.IH(1) [OF child_halt(7)] obtain new where "extends c env vars th
       (record_result rule (execResult rule fm (BoolVal True) None md i) st) new st'" ..
    then have "extends c env vars ?es st ([execResult rule fm (BoolVal True) None md i] @ new) st'"
      by (intro extends_trans [OF extends_head_exec [OF child_halt(1) child_halt(2) child_halt(3)]]
            extends_Then)
    then show ?thesis ..
  next
    case (child_cont st3 cerr)
    from Cons.IH(1) [OF child_cont(6)] obtain new1 where n1: "extends c env vars th
       (record_result rule (execResult rule fm (BoolVal True) None md i) st) new1 st3" ..
    from Cons.IH(2) [OF child_cont(7)] obtain new2 where n2: "extends c env vars rest st3 new2 st'" ..
    have "extends c env vars ?es st ([execResult rule fm (BoolVal True) None md i] @ new1) st3"
      using extends_trans [OF extends_head_exec [OF child_cont(1) child_cont(2) child_cont(3)]
          extends_Then [OF n1]] .
    from extends_trans [OF this extends_rest [OF n2]] show ?thesis ..
  qed
qed

section \<open>Halting and completion\<close>

lemma eval_results_append:
  assumes "eval pe c env vars md i es st = (st', err)"
  obtains new where "results st' = results st @ new" and "seen st \<subseteq> seen st'"
proof -
  from eval_extends [OF assms] obtain new where "extends c env vars es st new st'" ..
  then have "results st' = results st @ new" and "seen st \<subseteq> seen st'"
    by (auto simp: extends_def)
  then show ?thesis by (rule that)
qed

lemma eval_partial_no_error:
  "eval True c env vars md i es st = (st', err) \<Longrightarrow> err = None"
proof (induction es arbitrary: md i st st' err rule: entries_induct)
  case Nil
  then show ?case by simp
next
  case (Cons rule en fm th rest)
  from Cons.prems show ?case
  proof (cases rule: eval_Cons_cases)
    case skip
    show ?thesis by (rule Cons.IH(2) [OF skip(2)])
  next
    case (halt e)
    then show ?thesis by simp
  next
    case (cont e)
    show ?thesis by (rule Cons.IH(2) [OF cont(5)])
  next
    case (leaf out xerr)
    show ?thesis by (rule Cons.IH(2) [OF leaf(5)])
  next
    case (child_halt e)
    then show ?thesis by simp
  next
    case (child_cont st3 cerr)
    show ?thesis by (rule Cons.IH(2) [OF child_cont(7)])
  qed
qed

lemma seen_record_result [simp]: "seen (record_result rule r st) = insert rule (seen st)"
  by (simp add: record_result_def)

lemma results_record_result [simp]: "results (record_result rule r st) = results st @ [r]"
  by (simp add: record_result_def)

text \<open>A run that returns no error has seen every enabled entry of its list.\<close>

lemma eval_completes:
  "eval pe c env vars md i es st = (st', None) \<Longrightarrow> e \<in> set es \<Longrightarrow> Enabled e \<Longrightarrow>
   Rule e \<in> seen st'"
proof (induction es arbitrary: md i st st' rule: entries_induct)
  case Nil
  then show ?case by simp
next
  case (Cons rule en fm th rest)
  have tail: "Rule e \<in> seen st'"
    if "eval pe c env vars md (i + 1) rest s = (st', None)" and "rule \<in> seen s \<or> \<not> en" for s
  proof (cases "e \<in> set rest")
    case True
    then show ?thesis using Cons.IH(2) [OF that(1) _ Cons.prems(3)] by simp
  next
    case False
    then have "e = RuleEntry rule en fm th" using Cons.prems(2) by simp
    then have "rule \<in> seen s" and "Rule e = rule" using that(2) Cons.prems(3) by auto
    moreover from that(1) have "seen s \<subseteq> seen st'" by (rule eval_results_append)
    ultimately show ?thesis by blast
  qed
  from Cons.prems(1) show ?case
  proof (cases rule: eval_Cons_cases)
    case skip
    then show ?thesis using tail [of st] by blast
  next
    case (halt e)
    then show ?thesis by simp
  next
    case (cont e)
    then show ?thesis using tail by simp
  next
    case (leaf out xerr)
    then show ?thesis using tail by simp
  next
    case (child_halt e)
    then show ?thesis by simp
  next
    case (child_cont st3 cerr)
    from child_cont(6) have "seen (record_result rule (execResult rule fm (BoolVal True) None md i) st)
       \<subseteq> seen st3"
      by (rule eval_results_append)
    then have "rule \<in> seen st3" by simp
    then show ?thesis using tail [OF child_cont(7)] by simp
  qed
qed

lemma ends_at_failure_Nil: "ends_at_failure c env [] None"
  by (simp add: ends_at_failure_def)

lemma ends_at_failure_error:
  "setupError c env rule = Some e \<Longrightarrow>
   ends_at_failure c env [errorResult rule e md marker i] (Some e)"
  by (simp add: ends_at_failure_def errorResult_def)

lemma ends_at_failure_Cons:
  "setupError c env (Rule_res r) = None \<Longrightarrow> ends_at_failure c env new err \<Longrightarrow>
   ends_at_failure c env (r # new) err"
  by (cases err) (auto simp: ends_at_failure_def)

lemma ends_at_failure_append:
  "ends_at_failure c env new1 None \<Longrightarrow> ends_at_failure c env new2 err \<Longrightarrow>
   ends_at_failure c env (new1 @ new2) err"
  by (cases err) (auto simp: ends_at_failure_def butlast_append)

text \<open>Without partial evaluation a run ends at its first compile or build failure.\<close>

lemma eval_strict_ends_at_failure:
  "eval False c env vars md i es st = (st', err) \<Longrightarrow>
   \<exists>new. results st' = results st @ new \<and> ends_at_failure c env new err"
proof (induction es arbitrary: md i st st' err rule: entries_induct)
  case Nil
  then show ?case by (simp add: ends_at_failure_Nil)
next
  case (Cons rule en fm th rest)
  from Cons.prems show ?case
  proof (cases rule: eval_Cons_cases)
    case skip
    show ?thesis by (rule Cons.IH(2) [OF skip(2)])
  next
    case (halt e)
    have "results st' = results st @ [errorResult rule e md (setupMarker c env rule) i]"
      using halt(5) by simp
    moreover have "ends_at_failure c env [errorResult rule e md (setupMarker c env rule) i] err"
      unfolding halt(6) by (rule ends_at_failure_error [OF halt(3)])
    ultimately show ?thesis by blast
  next
    case (cont e)
    then show ?thesis by simp
  next
    case (leaf out xerr)
    let ?r = "execResult rule fm out xerr md i"
    from Cons.IH(2) [OF leaf(5)] obtain new
      where n: "results st' = results (record_result rule ?r st) @ new"
        and f: "ends_at_failure c env new err"
      by blast
    have "setupError c env (Rule_res ?r) = None"
      using execution_setupError [OF leaf(3)] by simp
    from ends_at_failure_Cons [OF this f] n show ?thesis by auto
  next
    case (child_halt e)
    let ?r = "execResult rule fm (BoolVal True) None md i"
    from Cons.IH(1) [OF child_halt(7)] obtain new
      where n: "results st' = results (record_result rule ?r st) @ new"
        and f: "ends_at_failure c env new (Some e)"
      by blast
    have "setupError c env (Rule_res ?r) = None"
      using execution_setupError [OF child_halt(3)] by simp
    from ends_at_failure_Cons [OF this f] n child_halt(6) show ?thesis by auto
  next
    case (child_cont st3 cerr)
    let ?r = "execResult rule fm (BoolVal True) None md i"
    from child_cont(5) have cerr: "cerr = None" by simp
    from Cons.IH(1) [OF child_cont(6)] cerr obtain new1
      where n1: "results st3 = results (record_result rule ?r st) @ new1"
        and f1: "ends_at_failure c env new1 None"
      by blast
    from Cons.IH(2) [OF child_cont(7)] obtain new2
      where n2: "results st' = results st3 @ new2" and f2: "ends_at_failure c env new2 err"
      by blast
    have "setupError c env (Rule_res ?r) = None"
      using execution_setupError [OF child_cont(3)] by simp
    from ends_at_failure_append [OF ends_at_failure_Cons [OF this f1] f2] n1 n2
    show ?thesis by auto
  qed
qed

text \<open>
  What a run without partial evaluation recorded is an initial segment of what the run
  with partial evaluation records from the same state; the two agree when the former
  returns no error.
\<close>

lemma eval_strict_prefix_of_partial:
  "eval False c env vars md i es st = (st', err) \<Longrightarrow>
   \<exists>st'' more. eval True c env vars md i es st = (st'', None) \<and>
      results st'' = results st' @ more \<and> (err = None \<longrightarrow> st'' = st')"
proof (induction es arbitrary: md i st st' err rule: entries_induct)
  case Nil
  then show ?case by simp
next
  case (Cons rule en fm th rest)
  have finish: "\<exists>st'' more. eval True c env vars md (i + 1) rest s = (st'', None) \<and>
      results st'' = results s @ more" for s
  proof -
    obtain st'' err'' where r: "eval True c env vars md (i + 1) rest s = (st'', err'')"
      by (cases "eval True c env vars md (i + 1) rest s")
    from eval_partial_no_error [OF r] have "err'' = None" .
    moreover from r obtain more where "results st'' = results s @ more"
      by (rule eval_results_append)
    ultimately show ?thesis using r by blast
  qed
  from Cons.prems show ?case
  proof (cases rule: eval_Cons_cases)
    case skip
    from Cons.IH(2) [OF skip(2)] show ?thesis
      by (simp only: eval_Cons_skip [OF skip(1)])
  next
    case (halt e)
    from finish [of st'] show ?thesis
      unfolding halt(5) halt(6) by (simp add: eval_Cons_setup [OF halt(1) halt(2) halt(3)])
  next
    case (cont e)
    then show ?thesis by simp
  next
    case (leaf out xerr)
    from Cons.IH(2) [OF leaf(5)] leaf(4) show ?thesis
      by (simp only: eval_Cons_execution [OF leaf(1) leaf(2) leaf(3)] if_False)
  next
    case (child_halt e)
    let ?s = "record_result rule (execResult rule fm (BoolVal True) None md i) st"
    from Cons.IH(1) [OF child_halt(7)] obtain s3 more1
      where c: "eval True c env vars (childMetadata md rule) 0 th ?s = (s3, None)"
        and m1: "results s3 = results st' @ more1"
      by blast
    from finish [of s3] obtain st'' more2
      where r: "eval True c env vars md (i + 1) rest s3 = (st'', None)"
        and m2: "results st'' = results s3 @ more2"
      by blast
    have "eval True c env vars md i (RuleEntry rule en fm th # rest) st = (st'', None)"
      using c r child_halt(4)
      by (simp add: eval_Cons_execution [OF child_halt(1) child_halt(2) child_halt(3)])
    moreover have "results st'' = results st' @ (more1 @ more2)"
      using m1 m2 by simp
    ultimately show ?thesis using child_halt(6) by blast
  next
    case (child_cont st3 cerr)
    let ?s = "record_result rule (execResult rule fm (BoolVal True) None md i) st"
    from child_cont(5) have cerr: "cerr = None" by simp
    from Cons.IH(1) [OF child_cont(6)] cerr
    have c: "eval True c env vars (childMetadata md rule) 0 th ?s = (st3, None)"
      by auto
    from Cons.IH(2) [OF child_cont(7)] obtain st'' more
      where r: "eval True c env vars md (i + 1) rest st3 = (st'', None)"
        and m: "results st'' = results st' @ more" and eq: "err = None \<longrightarrow> st'' = st'"
      by blast
    have "eval True c env vars md i (RuleEntry rule en fm th # rest) st = (st'', None)"
      using c r child_cont(4)
      by (simp add: eval_Cons_execution [OF child_cont(1) child_cont(2) child_cont(3)])
    then show ?thesis using m eq by blast
  qed
qed

section \<open>The run against the specification's traversal\<close>

lemma spec_child_context_eq: "spec_child_context md rule = childMetadata md rule"
  by (simp add: spec_child_context_def childMetadata_def extendChainPath_def)

lemma visit_result_setup:
  "setupError c env rule = Some e \<Longrightarrow>
   visit_result c env vars (RuleEntry rule en fm th, md, i) =
     errorResult rule e md (setupMarker c env rule) i"
  by (cases md)
     (auto simp: setupError_def setupMarker_def errorResult_def split: sum.splits)

lemma visit_result_execution:
  "execution c env vars rule = Some (out, xerr) \<Longrightarrow>
   visit_result c env vars (RuleEntry rule en fm th, md, i) = execResult rule fm out xerr md i"
  by (cases md) (auto simp: execution_def execResult_def split: sum.splits)

lemma Rule_res_visit_result [simp]: "Rule_res (visit_result c env vars (e, md, i)) = Rule e"
  by (simp split: sum.splits prod.splits)

declare visit_result.simps [simp del]

lemma passes_setupError: "setupError c env rule = Some e \<Longrightarrow> \<not> passes c env vars rule"
  by (simp add: passes_def setupError_execution)

lemma spec_traversal_skip:
  "\<not> en \<or> rule \<in> sn \<Longrightarrow>
   spec_traversal passing md i (RuleEntry rule en fm th # rest) sn =
     spec_traversal passing md (i + 1) rest sn"
  by simp

lemma spec_traversal_visit:
  "en \<Longrightarrow> rule \<notin> sn \<Longrightarrow>
   spec_traversal passing md i (RuleEntry rule en fm th # rest) sn =
     (RuleEntry rule en fm th, md, i) #
     (if passing rule then spec_traversal passing (childMetadata md rule) 0 th (insert rule sn)
      else []) @
     spec_traversal passing md (i + 1) rest
       (insert rule sn \<union>
        (\<lambda>v. Rule (fst v)) `
          set (if passing rule
               then spec_traversal passing (childMetadata md rule) 0 th (insert rule sn)
               else []))"
  by (simp add: Let_def spec_child_context_eq)

declare spec_traversal.simps(2) [simp del]

text \<open>The state after the visits \<open>vs\<close> were recorded.\<close>

lemma visited_record_result:
  "Rule_res r = rule \<Longrightarrow>
   \<lparr>seen = seen (record_result rule r st) \<union> X, results = results (record_result rule r st) @ rs\<rparr> =
   \<lparr>seen = seen st \<union> (insert rule X), results = results st @ r # rs\<rparr>"
  by (simp add: record_result_def)

text \<open>With partial evaluation a run records exactly the specification's traversal.\<close>

lemma eval_partial_eq_traversal:
  "eval True c env vars md i es st =
     (\<lparr>seen = seen st \<union> (\<lambda>v. Rule (fst v)) ` set (spec_traversal (passes c env vars) md i es (seen st)),
       results = results st @
         map (visit_result c env vars) (spec_traversal (passes c env vars) md i es (seen st))\<rparr>,
      None)"
proof (induction es arbitrary: md i st rule: entries_induct)
  case Nil
  then show ?case by simp
next
  case (Cons rule en fm th rest)
  let ?e = "RuleEntry rule en fm th"
  let ?T = "\<lambda>md i es sn. spec_traversal (passes c env vars) md i es sn"
  let ?texts = "\<lambda>vs. (\<lambda>v. Rule (fst v)) ` set vs"
  show ?case
  proof (cases "\<not> en \<or> rule \<in> seen st")
    case True
    then show ?thesis
      by (simp only: eval_Cons_skip spec_traversal_skip Cons.IH(2))
  next
    case False
    then have en: "en" and unseen: "rule \<notin> seen st" by auto
    note trav = spec_traversal_visit [OF en unseen, of "passes c env vars" md i fm th rest]
    show ?thesis
    proof (cases "setupError c env rule")
      case (Some e)
      let ?r = "errorResult rule e md (setupMarker c env rule) i"
      have np: "\<not> passes c env vars rule" using Some by (rule passes_setupError)
      have T: "?T md i (?e # rest) (seen st) = (?e, md, i) # ?T md (i + 1) rest (insert rule (seen st))"
        using np by (simp add: trav)
      have "eval True c env vars md i (?e # rest) st =
            eval True c env vars md (i + 1) rest (record_result rule ?r st)"
        by (simp add: eval_Cons_setup [OF en unseen Some])
      also have "\<dots> =
        (\<lparr>seen = seen (record_result rule ?r st) \<union> ?texts (?T md (i + 1) rest (insert rule (seen st))),
          results = results (record_result rule ?r st) @
            map (visit_result c env vars) (?T md (i + 1) rest (insert rule (seen st)))\<rparr>, None)"
        using Cons.IH(2) [of md "i + 1" "record_result rule ?r st"] by simp
      finally show ?thesis
        unfolding T by (simp add: visit_result_setup [OF Some])
    next
      case None
      then obtain out xerr where ex: "execution c env vars rule = Some (out, xerr)"
        by (cases rule: setupError_cases [where c = c and env = env and rule = rule and vars = vars])
           simp_all
      let ?r = "execResult rule fm out xerr md i"
      let ?s1 = "record_result rule ?r st"
      have s1: "seen ?s1 = insert rule (seen st)" by simp
      note rw = eval_Cons_execution [OF en unseen ex, of True md i fm th rest]
      show ?thesis
      proof (cases "passes c env vars rule")
        case False
        then have cond: "\<not> (xerr = None \<and> out = BoolVal True \<and> th \<noteq> [])"
          using ex by (auto simp: passes_def)
        have T: "?T md i (?e # rest) (seen st) =
                 (?e, md, i) # ?T md (i + 1) rest (insert rule (seen st))"
          using False by (simp add: trav)
        have "eval True c env vars md i (?e # rest) st = eval True c env vars md (i + 1) rest ?s1"
          unfolding rw if_not_P [OF cond] ..
        also have "\<dots> =
          (\<lparr>seen = seen ?s1 \<union> ?texts (?T md (i + 1) rest (insert rule (seen st))),
            results = results ?s1 @
              map (visit_result c env vars) (?T md (i + 1) rest (insert rule (seen st)))\<rparr>, None)"
          using Cons.IH(2) [of md "i + 1" ?s1] by simp
        finally show ?thesis
          unfolding T by (simp add: visit_result_execution [OF ex])
      next
        case True
        then have ok: "xerr = None" "out = BoolVal True" using ex by (simp_all add: passes_def)
        let ?B = "?T (childMetadata md rule) 0 th (insert rule (seen st))"
        let ?s3 = "\<lparr>seen = seen ?s1 \<union> ?texts ?B,
                     results = results ?s1 @ map (visit_result c env vars) ?B\<rparr>"
        have T: "?T md i (?e # rest) (seen st) =
                 (?e, md, i) # ?B @ ?T md (i + 1) rest (insert rule (seen st) \<union> ?texts ?B)"
          using True by (simp add: trav)
        have child: "eval True c env vars (childMetadata md rule) 0 th ?s1 = (?s3, None)"
          using Cons.IH(1) [of "childMetadata md rule" 0 ?s1] by simp
        have "eval True c env vars md i (?e # rest) st = eval True c env vars md (i + 1) rest ?s3"
        proof (cases "th = []")
          case True
          then show ?thesis unfolding rw by (simp add: record_result_def)
        next
          case False
          then show ?thesis unfolding rw using ok child by simp
        qed
        also have "\<dots> =
          (\<lparr>seen = seen ?s3 \<union> ?texts (?T md (i + 1) rest (seen ?s3)),
            results = results ?s3 @ map (visit_result c env vars) (?T md (i + 1) rest (seen ?s3))\<rparr>,
           None)"
          by (rule Cons.IH(2))
        finally show ?thesis
          unfolding T by (simp add: visit_result_execution [OF ex] image_Un Un_assoc)
      qed
    qed
  qed
qed

text \<open>Every visit is an enabled entry of the tree.\<close>

lemma spec_traversal_entries:
  "(e, m, j) \<in> set (spec_traversal passing md i es sn) \<Longrightarrow> e \<in> set (all_entries es) \<and> Enabled e"
proof (induction es arbitrary: md i sn rule: entries_induct)
  case Nil
  then show ?case by simp
next
  case (Cons rule en fm th rest)
  show ?case
  proof (cases "\<not> en \<or> rule \<in> sn")
    case True
    with Cons.prems have "(e, m, j) \<in> set (spec_traversal passing md (i + 1) rest sn)"
      by (simp only: spec_traversal_skip)
    from Cons.IH(2) [OF this] show ?thesis by simp
  next
    case False
    then have en: "en" and unseen: "rule \<notin> sn" by auto
    let ?B = "if passing rule then spec_traversal passing (childMetadata md rule) 0 th (insert rule sn)
              else []"
    from Cons.prems [unfolded spec_traversal_visit [OF en unseen]]
    consider "(e, m, j) = (RuleEntry rule en fm th, md, i)" | "(e, m, j) \<in> set ?B"
      | "(e, m, j) \<in> set (spec_traversal passing md (i + 1) rest
           (insert rule sn \<union> (\<lambda>v. Rule (fst v)) ` set ?B))"
      by auto
    then show ?thesis
    proof cases
      case 1
      then show ?thesis using en by simp
    next
      case 2
      then have "(e, m, j) \<in> set (spec_traversal passing (childMetadata md rule) 0 th (insert rule sn))"
        by (simp split: if_splits)
      from Cons.IH(1) [OF this] show ?thesis by simp
    next
      case 3
      from Cons.IH(2) [OF this] show ?thesis by simp
    qed
  qed
qed

section \<open>Lists up to their first failure\<close>

lemma upto_first_none: "\<forall>x \<in> set xs. \<not> P x \<Longrightarrow> upto_first P xs = xs"
  by (induction xs) simp_all

lemma upto_first_found:
  "\<forall>x \<in> set pre. \<not> P x \<Longrightarrow> P r \<Longrightarrow> upto_first P (pre @ r # post) = pre @ [r]"
  by (induction pre) simp_all

lemma find_none: "\<forall>x \<in> set xs. \<not> P x \<Longrightarrow> find P xs = None"
  by (induction xs) simp_all

lemma find_found: "\<forall>x \<in> set pre. \<not> P x \<Longrightarrow> P r \<Longrightarrow> find P (pre @ r # post) = Some r"
  by (induction pre) simp_all

lemma upto_first_prefix: "\<exists>post. xs = upto_first P xs @ post"
  by (induction xs) auto

text \<open>
  A list that ends at its first failure and is an initial segment of the complete list,
  all of it when there is no failure, is the complete list up to its first failure.
\<close>

lemma ends_at_failure_upto_first:
  assumes "ends_at_failure c env rs err" and "full = rs @ post" and "err = None \<longrightarrow> post = []"
  shows "rs = upto_first (is_setup_failure c env) full"
    and "err = (case find (is_setup_failure c env) full of None \<Rightarrow> None | Some r \<Rightarrow> Error r)"
proof -
  show "rs = upto_first (is_setup_failure c env) full"
  proof (cases err)
    case None
    with assms have "full = rs" and "\<forall>r \<in> set rs. \<not> is_setup_failure c env r"
      by (simp_all add: ends_at_failure_def is_setup_failure_def)
    then show ?thesis by (simp add: upto_first_none)
  next
    case (Some e)
    with assms(1) have ne: "rs \<noteq> []" and l: "is_setup_failure c env (last rs)"
      and b: "\<forall>r \<in> set (butlast rs). \<not> is_setup_failure c env r"
      by (simp_all add: ends_at_failure_def is_setup_failure_def)
    from ne have "full = butlast rs @ last rs # post" using assms(2) by simp
    with upto_first_found [OF b l, of post] ne show ?thesis by simp
  qed
  show "err = (case find (is_setup_failure c env) full of None \<Rightarrow> None | Some r \<Rightarrow> Error r)"
  proof (cases err)
    case None
    with assms have "full = rs" and "\<forall>r \<in> set rs. \<not> is_setup_failure c env r"
      by (simp_all add: ends_at_failure_def is_setup_failure_def)
    then show ?thesis using None by (simp add: find_none)
  next
    case (Some e)
    with assms(1) have ne: "rs \<noteq> []" and l: "is_setup_failure c env (last rs)"
      and b: "\<forall>r \<in> set (butlast rs). \<not> is_setup_failure c env r"
      and e: "Error (last rs) = Some e"
      by (simp_all add: ends_at_failure_def is_setup_failure_def)
    from ne have "full = butlast rs @ last rs # post" using assms(2) by simp
    with find_found [OF b l, of post] e Some show ?thesis by simp
  qed
qed

section \<open>From the loop to \<open>Validate\<close>\<close>

lemmas demo_defs = demo_cel_def failing_cel_def demo_obj_def demo_vars_def demo_env_def demo_md_def
  strict_def lenient_def NewValidator_def WithPartialEval_def demo_variable_def demo_Eval_def

lemma demo_flatten: "flattenStruct demo_obj = Some demo_vars"
  by (simp add: demo_obj_def demo_vars_def)

lemma demo_buildEnv: "buildEnv demo_cel demo_obj = Some (Inr (demo_env, demo_vars))"
  by (simp add: buildEnv_def demo_flatten) (simp add: demo_cel_def demo_vars_def demo_env_def)

lemma Validate_buildEnv:
  "buildEnv c obj = Some (Inr (env, vars)) \<Longrightarrow>
   Validate v c obj rules md =
     (case eval (partialEval v) c env vars md 0 rules \<lparr>seen = {}, results = []\<rparr> of
        (st, err) \<Rightarrow> Some (Some (results st), err))"
  by (simp add: Validate_def)

lemma Validate_results_cases:
  assumes "Validate v c obj rules md = Some (Some rs, err)"
  obtains env vars st where "buildEnv c obj = Some (Inr (env, vars))"
    and "eval (partialEval v) c env vars md 0 rules \<lparr>seen = {}, results = []\<rparr> = (st, err)"
    and "results st = rs"
  using assms unfolding Validate_def
  by (auto split: option.splits sum.splits prod.splits)

lemma Validate_eval:
  assumes "buildEnv c obj = Some (Inr (env, vars))"
    and "Validate v c obj rules md = Some (Some rs, err)"
  obtains st where
    "eval (partialEval v) c env vars md 0 rules \<lparr>seen = {}, results = []\<rparr> = (st, err)"
    and "results st = rs"
  using assms by (auto simp: Validate_buildEnv split: prod.splits)

lemma Validate_extends:
  assumes "buildEnv c obj = Some (Inr (env, vars))"
    and "Validate v c obj rules md = Some (Some rs, err)"
  shows "distinct (map Rule_res rs) \<and> (\<forall>r \<in> set rs. produced c env vars rules r)"
proof -
  from assms obtain st
    where e: "eval (partialEval v) c env vars md 0 rules \<lparr>seen = {}, results = []\<rparr> = (st, err)"
      and r: "results st = rs"
    by (rule Validate_eval)
  from eval_extends [OF e] obtain new
    where "extends c env vars rules \<lparr>seen = {}, results = []\<rparr> new st" ..
  then show ?thesis using r by (simp add: extends_def)
qed

lemma produced_execution:
  assumes "produced c env vars es r" and "execution c env vars (Rule_res r) = Some (out, xerr)"
  obtains e where "e \<in> set (all_entries es)" and "Enabled e" and "Rule e = Rule_res r"
    and "Passed r = (xerr = None \<and> out = BoolVal True)" and "Error r = xerr"
    and "Message r = (if Passed r then '''' else FailureMessage e)"
proof -
  from assms(1) obtain e where e: "e \<in> set (all_entries es)" "Enabled e" "Rule e = Rule_res r"
    and c: "case setupError c env (Rule e) of
           Some err \<Rightarrow> \<not> Passed r \<and> Error r = Some err \<and> Message r = ''''
         | None \<Rightarrow>
             (case execution c env vars (Rule e) of
                None \<Rightarrow> False
              | Some (out, xerr) \<Rightarrow>
                  Passed r = (xerr = None \<and> out = BoolVal True) \<and> Error r = xerr \<and>
                  Message r = (if Passed r then '''' else FailureMessage e))"
    unfolding produced_def by blast
  have "setupError c env (Rule e) = None"
    using assms(2) e(3) execution_setupError by metis
  with c assms(2) e(3) have "Passed r = (xerr = None \<and> out = BoolVal True)" "Error r = xerr"
    "Message r = (if Passed r then '''' else FailureMessage e)"
    by simp_all
  with e show ?thesis by (rule that)
qed

text \<open>
  \<open>Validate\<close> against the specification's traversal: with partial evaluation it returns
  what the complete traversal records; without, that list up to its first compile or
  build failure, and the error of that failure.
\<close>

lemma Validate_partial_eq:
  assumes "buildEnv c obj = Some (Inr (env, vars))" and "partialEval v"
  shows "Validate v c obj rules md = Some (Some (spec_results c env vars md rules), None)"
  using assms(2)
  by (simp add: Validate_buildEnv [OF assms(1)] eval_partial_eq_traversal spec_results_def)

lemma Validate_strict_eq:
  assumes "buildEnv c obj = Some (Inr (env, vars))" and "\<not> partialEval v"
  shows "Validate v c obj rules md =
     Some (Some (upto_first (is_setup_failure c env) (spec_results c env vars md rules)),
           (case find (is_setup_failure c env) (spec_results c env vars md rules) of
              None \<Rightarrow> None
            | Some r \<Rightarrow> Error r))"
proof -
  let ?st0 = "\<lparr>seen = {}, results = []\<rparr>"
  obtain st err where e: "eval False c env vars md 0 rules ?st0 = (st, err)"
    by (cases "eval False c env vars md 0 rules ?st0")
  from eval_strict_ends_at_failure [OF e] have f: "ends_at_failure c env (results st) err"
    by simp
  from eval_strict_prefix_of_partial [OF e] obtain st'' post
    where p: "eval True c env vars md 0 rules ?st0 = (st'', None)"
      and m: "results st'' = results st @ post" and n: "err = None \<longrightarrow> st'' = st"
    by blast
  from p have "results st'' = spec_results c env vars md rules"
    by (auto simp: eval_partial_eq_traversal spec_results_def)
  with m have full: "spec_results c env vars md rules = results st @ post" by simp
  from n m have "err = None \<longrightarrow> post = []" by auto
  from ends_at_failure_upto_first [OF f full this] e assms(2) show ?thesis
    by (simp add: Validate_buildEnv [OF assms(1)])
qed

lemma Validate_results_prefix:
  assumes "buildEnv c obj = Some (Inr (env, vars))"
    and "Validate v c obj rules md = Some (Some rs, err)"
  shows "\<exists>post. spec_results c env vars md rules = rs @ post"
proof (cases "partialEval v")
  case True
  from Validate_partial_eq [OF assms(1) True, of rules md] assms(2) show ?thesis by simp
next
  case False
  from Validate_strict_eq [OF assms(1) False, of rules md] assms(2)
  have "rs = upto_first (is_setup_failure c env) (spec_results c env vars md rules)" by simp
  then show ?thesis using upto_first_prefix by metis
qed

lemmas demo_eval = eval.simps(2) demo_defs Let_def extendChainPath_def

lemma demo_mixed:
  "Validate strict demo_cel demo_obj mixed_rules demo_md = Some (Some mixed_results, None)"
  by (simp only: Validate_buildEnv [OF demo_buildEnv])
     (simp add: demo_eval mixed_rules_def mixed_results_def)

lemma demo_dup:
  "Validate lenient demo_cel demo_obj dup_rules demo_md = Some (Some dup_results, None)"
  by (simp only: Validate_buildEnv [OF demo_buildEnv])
     (simp add: demo_eval dup_rules_def dup_results_def)

lemma demo_raising:
  "Validate strict demo_cel demo_obj raising_rules demo_md = Some (Some raising_results, None)"
  by (simp only: Validate_buildEnv [OF demo_buildEnv])
     (simp add: demo_eval raising_rules_def raising_results_def)

lemma demo_invalid_first_strict:
  "Validate strict demo_cel demo_obj invalid_first_rules demo_md =
     Some (Some invalid_first_results, Some (GoError ''undeclared reference to UnknownField''))"
  by (simp only: Validate_buildEnv [OF demo_buildEnv])
     (simp add: demo_eval invalid_first_rules_def invalid_first_results_def)

lemma demo_invalid_first_lenient:
  "Validate lenient demo_cel demo_obj invalid_first_rules demo_md =
     Some (Some (invalid_first_results @ invalid_first_remaining), None)"
  by (simp only: Validate_buildEnv [OF demo_buildEnv])
     (simp add: demo_eval invalid_first_rules_def invalid_first_results_def
        invalid_first_remaining_def)

lemma demo_halting_strict:
  "Validate strict demo_cel demo_obj halting_rules demo_md =
     Some (Some halting_results, Some (GoError ''undeclared reference to UnknownField''))"
  by (simp only: Validate_buildEnv [OF demo_buildEnv])
     (simp add: demo_eval halting_rules_def halting_results_def)

lemma demo_halting_lenient:
  "Validate lenient demo_cel demo_obj halting_rules demo_md =
     Some (Some (halting_results @ remaining_results), None)"
  by (simp only: Validate_buildEnv [OF demo_buildEnv])
     (simp add: demo_eval halting_rules_def halting_results_def remaining_results_def)



section \<open>Rule resolution against its specification\<close>

lemma filterThen_eq:
  "filterThen th acc = acc @ map filterEnabledRules (filter Enabled th)"
  by (induction th arbitrary: acc) simp_all

lemma filterEnabledRules_eq_spec_prune: "filterEnabledRules e = spec_prune e"
proof (induction e)
  case (RuleEntry r en fm th)
  then have "map filterEnabledRules (filter Enabled th) = map spec_prune (filter Enabled th)"
    by (intro map_cong) auto
  then show ?case by (simp add: filterThen_eq)
qed

lemma mergeRules_eq:
  "mergeRules rs (merged, sn) =
     (merged @ map spec_prune (first_by_rule (filter (\<lambda>r. Enabled r \<and> Rule r \<notin> sn) rs)),
      sn \<union> Rule ` {r \<in> set rs. Enabled r})"
proof (induction rs arbitrary: merged sn)
  case Nil
  then show ?case by simp
next
  case (Cons r rs)
  have "filter (\<lambda>x. Rule x \<noteq> Rule r) (filter (\<lambda>x. Enabled x \<and> Rule x \<notin> sn) rs) =
        filter (\<lambda>x. Enabled x \<and> Rule x \<notin> insert (Rule r) sn) rs"
    by (simp add: conj_commute conj_left_commute cong: conj_cong)
  then show ?case
    using Cons.IH by (auto simp: filterEnabledRules_eq_spec_prune)
qed

lemma first_by_rule_append:
  "first_by_rule (xs @ ys) =
     first_by_rule xs @ first_by_rule (filter (\<lambda>y. Rule y \<notin> Rule ` set xs) ys)"
proof (induction xs arbitrary: ys rule: first_by_rule.induct)
  case 1
  then show ?case by simp
next
  case (2 e es)
  have "filter (\<lambda>y. Rule y \<notin> Rule ` set (filter (\<lambda>x. Rule x \<noteq> Rule e) es))
          (filter (\<lambda>x. Rule x \<noteq> Rule e) ys) =
        filter (\<lambda>y. Rule y \<notin> Rule ` set (e # es)) ys"
    by (induction ys) auto
  then show ?case using "2.IH" [of "filter (\<lambda>x. Rule x \<noteq> Rule e) ys"] by simp
qed

lemma set_first_by_rule: "set (first_by_rule xs) \<subseteq> set xs"
  by (induction xs rule: first_by_rule.induct) auto

lemma distinct_first_by_rule: "distinct (map Rule (first_by_rule xs))"
proof (induction xs rule: first_by_rule.induct)
  case 1
  then show ?case by simp
next
  case (2 e es)
  have "Rule e \<notin> Rule ` set (first_by_rule (filter (\<lambda>x. Rule x \<noteq> Rule e) es))"
    using set_first_by_rule [of "filter (\<lambda>x. Rule x \<noteq> Rule e) es"] by auto
  then show ?case using "2.IH" by simp
qed

lemma Rule_spec_prune [simp]: "Rule (spec_prune e) = Rule e"
  by (cases e) simp

lemma Enabled_spec_prune [simp]: "Enabled (spec_prune e) = Enabled e"
  by (cases e) simp

lemma all_entries_append [simp]: "all_entries (xs @ ys) = all_entries xs @ all_entries ys"
  by (induction xs rule: all_entries.induct) simp_all

lemma all_entries_spec_prune_enabled:
  "e \<in> set (all_entries (map spec_prune (filter Enabled es))) \<Longrightarrow> Enabled e"
proof (induction es arbitrary: e rule: entries_induct)
  case Nil
  then show ?case by simp
next
  case (Cons rule en fm th rest)
  show ?case
  proof (cases en)
    case True
    with Cons.prems have "e = RuleEntry rule en fm (map spec_prune (filter Enabled th)) \<or>
        e \<in> set (all_entries (map spec_prune (filter Enabled th))) \<or>
        e \<in> set (all_entries (map spec_prune (filter Enabled rest)))"
      by simp
    then show ?thesis
    proof (elim disjE)
      assume "e = RuleEntry rule en fm (map spec_prune (filter Enabled th))"
      then show ?thesis using True by simp
    next
      assume "e \<in> set (all_entries (map spec_prune (filter Enabled th)))"
      then show ?thesis by (rule Cons.IH(1))
    next
      assume "e \<in> set (all_entries (map spec_prune (filter Enabled rest)))"
      then show ?thesis by (rule Cons.IH(2))
    qed
  next
    case False
    with Cons.prems have "e \<in> set (all_entries (map spec_prune (filter Enabled rest)))"
      by simp
    then show ?thesis by (rule Cons.IH(2))
  qed
qed

lemma GetRulesFor_eq_spec:
  assumes "getStructName obj = Some name"
  shows "GetRulesFor obj operation rules = Some (spec_GetRulesFor rules name operation)"
proof (cases "rules name")
  case None
  then show ?thesis using assms by (simp add: GetRulesFor_def spec_GetRulesFor_def)
next
  case (Some structRules)
  have d: "(case map_of structRules ''Default'' of None \<Rightarrow> ([], {})
            | Some defaultRules \<Rightarrow> mergeRules defaultRules ([], {})) =
           mergeRules (bucket structRules ''Default'') ([], {})"
    by (simp add: bucket_def split: option.splits)
  have o: "(case map_of structRules operation of None \<Rightarrow> s
            | Some opRules \<Rightarrow> mergeRules opRules s) =
           mergeRules (bucket structRules operation) s" for s
    by (cases s) (simp add: bucket_def split: option.splits)
  show ?thesis
    using assms Some
    by (simp add: GetRulesFor_def spec_GetRulesFor_def d o mergeRules_eq first_by_rule_append
        Let_def)
qed

section \<open>Flattening against its specification\<close>

lemma map_upd_add: "m(k \<mapsto> v) ++ n = m ++ [k \<mapsto> v] ++ n"
  by (auto simp: map_add_def fun_eq_iff split: option.splits)

lemma map_of_foldl_update:
  "map_of (foldl (\<lambda>res (k, v). AList.update (f k) v res) acc xs) =
   map_of acc ++ map_of (rev (map (\<lambda>(k, v). (f k, v)) xs))"
proof (induction xs arbitrary: acc)
  case Nil
  then show ?case by simp
next
  case (Cons x xs)
  obtain k v where x: "x = (k, v)" by (cases x)
  have "map_of (foldl (\<lambda>res (k, v). AList.update (f k) v res) acc (x # xs)) =
        map_of (AList.update (f k) v acc) ++ map_of (rev (map (\<lambda>(k, v). (f k, v)) xs))"
    using Cons.IH [of "AList.update (f k) v acc"] x by simp
  also have "\<dots> = map_of acc ++ [f k \<mapsto> v] ++ map_of (rev (map (\<lambda>(k, v). (f k, v)) xs))"
    by (simp only: AList.update_conv' map_upd_add)
  also have "\<dots> = map_of acc ++ map_of (rev (map (\<lambda>(k, v). (f k, v)) (x # xs)))"
    using x by simp
  finally show ?case .
qed

lemma distinct_foldl_update:
  "distinct (map fst acc) \<Longrightarrow>
   distinct (map fst (foldl (\<lambda>res (k, v). AList.update (f k) v res) acc xs))"
proof (induction xs arbitrary: acc)
  case Nil
  then show ?case by simp
next
  case (Cons x xs)
  obtain k v where x: "x = (k, v)" by (cases x)
  from Cons.prems have "distinct (map fst (AList.update (f k) v acc))"
    by (rule AList.distinct_update)
  from Cons.IH [OF this] x show ?case by simp
qed

lemma map_of_map_key_inj:
  assumes "inj f"
  shows "map_of (map (\<lambda>(k, v). (f k, v)) xs) (f k) = map_of xs k"
  using assms by (induction xs) (auto simp: inj_eq)

lemma map_of_map_key_outside:
  "k' \<notin> range f \<Longrightarrow> map_of (map (\<lambda>(k, v). (f k, v)) xs) k' = None"
  by (induction xs) auto

lemma map_of_map_key_cong:
  assumes "inj f" and "map_of xs = map_of ys"
  shows "map_of (map (\<lambda>(k, v). (f k, v)) xs) = map_of (map (\<lambda>(k, v). (f k, v)) ys)"
proof
  fix k'
  show "map_of (map (\<lambda>(k, v). (f k, v)) xs) k' = map_of (map (\<lambda>(k, v). (f k, v)) ys) k'"
  proof (cases "k' \<in> range f")
    case True
    then obtain k where "k' = f k" by auto
    then show ?thesis using assms by (simp add: map_of_map_key_inj)
  next
    case False
    then show ?thesis by (simp add: map_of_map_key_outside)
  qed
qed

lemma map_of_rev_distinct:
  "distinct (map fst xs) \<Longrightarrow> map_of (rev xs) = map_of xs"
proof (induction xs)
  case Nil
  then show ?case by simp
next
  case (Cons x xs)
  obtain k v where x: "x = (k, v)" by (cases x)
  from Cons.prems x have "k \<notin> dom (map_of xs)" by (simp add: dom_map_of_conv_image_fst)
  then have "map_of [(k, v)] ++ map_of xs = (map_of xs)(k \<mapsto> v)"
    by (auto simp: map_add_def fun_eq_iff split: option.splits)
  then show ?case using Cons x by simp
qed

lemma inj_prefix: "inj (\<lambda>k. name @ ''.'' @ k)"
  by (rule injI) simp

lemma flattenFields_stored:
  assumes "ci" and "iface \<or> (\<forall>n fs. val \<noteq> StructV n fs)"
  shows "flattenFields (StructField name ci iface val # rest) acc =
           flattenFields rest (AList.update name val acc)"
    and "flattened_paths (StructField name ci iface val # rest) = (name, val) # flattened_paths rest"
  using assms by (cases val; simp)+

lemma flattenFields_spec:
  "distinct (map fst acc) \<Longrightarrow>
   \<exists>res. flattenFields fs acc = Some res \<and> distinct (map fst res) \<and>
         map_of res = map_of acc ++ map_of (rev (flattened_paths fs))"
proof (induction fs arbitrary: acc rule: flattened_paths.induct)
  case 1
  then show ?case by simp
next
  case (2 name ci iface val rest)
  show ?case
  proof (cases ci)
    case False
    then show ?thesis using "2.IH"(2) [OF "2.prems"] by simp
  next
    case True
    show ?thesis
    proof (cases "iface \<or> (\<forall>n fs. val \<noteq> StructV n fs)")
      case stored: True
      from "2.prems" have d: "distinct (map fst (AList.update name val acc))"
        by (rule AList.distinct_update)
      from "2.IH"(2) [OF d] obtain res
        where r: "flattenFields rest (AList.update name val acc) = Some res"
          "distinct (map fst res)"
          "map_of res = map_of (AList.update name val acc) ++ map_of (rev (flattened_paths rest))"
        by blast
      note eqs = flattenFields_stored [OF True stored, of name rest]
      have f: "flattenFields (StructField name ci iface val # rest) acc = Some res"
        using r(1) by (simp only: eqs)
      have "map_of res =
            map_of acc ++ map_of (rev (flattened_paths (StructField name ci iface val # rest)))"
        unfolding eqs(2) r(3) by (simp add: AList.update_conv')
      with f r(2) show ?thesis by blast
    next
      case False
      then obtain n fs where val: "val = StructV n fs" and iface: "\<not> iface" by blast
      let ?g = "\<lambda>(k, v). (name @ ''.'' @ k, v)"
      from "2.IH"(1) [OF _ _ val, of "[]"] True iface obtain nested
        where n: "flattenFields fs [] = Some nested" "distinct (map fst nested)"
          "map_of nested = map_of (rev (flattened_paths fs))"
        by auto
      let ?acc = "foldl (\<lambda>res (k, v). AList.update (name @ ''.'' @ k) v res) acc nested"
      from "2.prems" have d: "distinct (map fst ?acc)"
        by (rule distinct_foldl_update)
      from "2.IH"(2) [OF d] obtain res
        where r: "flattenFields rest ?acc = Some res" "distinct (map fst res)"
          "map_of res = map_of ?acc ++ map_of (rev (flattened_paths rest))"
        by blast
      have f: "flattenFields (StructField name ci iface val # rest) acc = Some res"
        using r(1) n(1) True val iface by simp
      have "map_of (rev nested) = map_of (rev (flattened_paths fs))"
        using n(2) n(3) by (simp add: map_of_rev_distinct)
      then have "map_of (map ?g (rev nested)) = map_of (map ?g (rev (flattened_paths fs)))"
        by (rule map_of_map_key_cong [OF inj_prefix])
      then have m: "map_of ?acc = map_of acc ++ map_of (rev (map ?g (flattened_paths fs)))"
        by (simp add: map_of_foldl_update rev_map)
      have p: "flattened_paths (StructField name ci iface val # rest) =
               map ?g (flattened_paths fs) @ flattened_paths rest"
        using True val iface by simp
      have "map_of res =
            map_of acc ++ map_of (rev (flattened_paths (StructField name ci iface val # rest)))"
        unfolding p r(3) m by simp
      with f r(2) show ?thesis by blast
    qed
  qed
qed

section \<open>Compile and build failures among the results\<close>

lemma upto_first_clean:
  "\<forall>x \<in> set (upto_first P xs). \<not> P x \<Longrightarrow> upto_first P xs = xs \<and> find P xs = None"
  by (induction xs) (auto split: if_splits)

text \<open>
  The result the traversal records for a rule text that does not compile or build has
  \<open>passed = false\<close>, that error and no message.
\<close>

lemma spec_results_failure:
  assumes "r \<in> set (spec_results c env vars md rules)" and "is_setup_failure c env r"
  shows "Error r = setupError c env (Rule_res r) \<and> Error r \<noteq> None \<and> \<not> Passed r \<and> Message r = ''''"
proof -
  from assms(1) obtain e m j where r: "r = visit_result c env vars (e, m, j)"
    unfolding spec_results_def by auto
  obtain rule en fm th where e: "e = RuleEntry rule en fm th" by (cases e)
  from assms(2) r e obtain x where x: "setupError c env rule = Some x"
    by (auto simp: is_setup_failure_def)
  from visit_result_setup [OF x] r e
  have "r = errorResult rule x m (setupMarker c env rule) j" by simp
  with x show ?thesis by (simp add: errorResult_def)
qed

lemma card_Rule_res:
  "distinct (map Rule_res rs) \<Longrightarrow> length rs = card (Rule_res ` set rs)"
  using distinct_card [of "map Rule_res rs"] by simp

section \<open>Parents and children in the traversal\<close>








section \<open>The results of a call against the visits of the traversal\<close>









section \<open>Claims about the recorded results\<close>

text \<open>
  C4. For every rule that reaches execution in a \<open>Validate\<close> call (its expression compiles
  and its program builds), the result's \<open>passed\<close> field is true if and only if execution
  produced no runtime error and the result value is the boolean \<open>true\<close>; a non-boolean
  value or an execution error yields \<open>passed = false\<close>.
\<close>

theorem passed_iff_true_without_error:
  assumes "buildEnv c obj = Some (Inr (env, vars))"
    and "Validate v c obj rules md = Some (Some rs, err)"
    and "r \<in> set rs"
    and "execution c env vars (Rule_res r) = Some (out, xerr)"
  shows "Passed r \<longleftrightarrow> xerr = None \<and> out = BoolVal True"
proof -
  from Validate_extends [OF assms(1) assms(2)] assms(3) have "produced c env vars rules r"
    by blast
  from this assms(4) show ?thesis by (rule produced_execution)
qed

theorem passed_iff_true_without_error_witness:
  "buildEnv demo_cel demo_obj = Some (Inr (demo_env, demo_vars)) \<and>
   Validate strict demo_cel demo_obj mixed_rules demo_md = Some (Some mixed_results, None) \<and>
   mixed_results ! 2 \<in> set mixed_results \<and>
   execution demo_cel demo_env demo_vars (Rule_res (mixed_results ! 2)) =
     Some (OtherVal ''int'', None) \<and>
   (Passed (mixed_results ! 2) \<longleftrightarrow>
      None = (None :: go_error option) \<and> OtherVal ''int'' = BoolVal True)"
proof -
  have m: "mixed_results ! 2 \<in> set mixed_results"
    by (simp add: mixed_results_def)
  have x: "execution demo_cel demo_env demo_vars (Rule_res (mixed_results ! 2)) =
     Some (OtherVal ''int'', None)"
    by (simp add: mixed_results_def execution_def demo_defs)
  from passed_iff_true_without_error [OF demo_buildEnv demo_mixed m x] demo_buildEnv demo_mixed m x
  show ?thesis by blast
qed

text \<open>
  C1, as amended. For every \<open>Validate\<close> call, the result at a position \<open>k\<close> of the
  returned sequence is the result of the entry evaluated \<open>k\<close>-th in the traversal. When
  that entry's expression compiles and its program builds, the result carries the
  entry's expression text, \<open>passed = true\<close> exactly for the boolean \<open>true\<close> without
  error, the execution error (if any) in its \<open>error\<close> field, and the context it was
  evaluated in. Its \<open>message\<close> field is empty when the rule passed and is that entry's
  configured failure message whenever it did not pass: after an execution error as well
  as after a pure logical failure.
\<close>

theorem failed_execution_carries_failure_message:
  assumes "buildEnv c obj = Some (Inr (env, vars))"
    and "Validate v c obj rules md = Some (Some rs, err)"
    and "k < length rs"
    and "spec_traversal (passes c env vars) md 0 rules {} ! k = (e, md', i)"
    and "execution c env vars (Rule e) = Some (out, xerr)"
  shows "rs ! k =
           \<lparr>Rule_res = Rule e, Passed = (xerr = None \<and> out = BoolVal True), Error = xerr,
            Message = (if xerr = None \<and> out = BoolVal True then '''' else FailureMessage e),
            Metadata = md'\<lparr>RuleIndex := i\<rparr>\<rparr> \<and>
         e \<in> set (all_entries rules) \<and> Enabled e"
proof -
  let ?T = "spec_traversal (passes c env vars) md 0 rules {}"
  from Validate_results_prefix [OF assms(1) assms(2)] obtain post
    where p: "map (visit_result c env vars) ?T = rs @ post"
    unfolding spec_results_def ..
  then have "length rs \<le> length ?T"
    by (metis length_append length_map le_add1)
  with assms(3) have k: "k < length ?T" by simp
  from p assms(3) have "rs ! k = map (visit_result c env vars) ?T ! k"
    by (simp add: nth_append)
  with k assms(4) have r: "rs ! k = visit_result c env vars (e, md', i)" by simp
  from k assms(4) have "(e, md', i) \<in> set ?T" by (metis nth_mem)
  then have en: "e \<in> set (all_entries rules) \<and> Enabled e" by (rule spec_traversal_entries)
  obtain rule en' fm th where e: "e = RuleEntry rule en' fm th" by (cases e)
  from assms(5) have "visit_result c env vars (e, md', i) = execResult rule fm out xerr md' i"
    unfolding e by (simp add: visit_result_execution)
  with r have "rs ! k = execResult rule fm out xerr md' i" by simp
  then have "rs ! k =
           \<lparr>Rule_res = Rule e, Passed = (xerr = None \<and> out = BoolVal True), Error = xerr,
            Message = (if xerr = None \<and> out = BoolVal True then '''' else FailureMessage e),
            Metadata = md'\<lparr>RuleIndex := i\<rparr>\<rparr>"
    unfolding e by (simp add: execResult_def)
  from this en show ?thesis by (rule conjI)
qed

theorem failed_execution_carries_failure_message_witness:
  "buildEnv demo_cel demo_obj = Some (Inr (demo_env, demo_vars)) \<and>
   Validate strict demo_cel demo_obj raising_rules demo_md = Some (Some raising_results, None) \<and>
   (0 :: nat) < length raising_results \<and>
   spec_traversal (passes demo_cel demo_env demo_vars) demo_md 0 raising_rules {} ! 0 =
     (RuleEntry ''Details.missing == 1'' True ''needs detail'' [], demo_md, 0) \<and>
   execution demo_cel demo_env demo_vars ''Details.missing == 1'' =
     Some (OtherVal ''error'', Some (GoError ''no such key: missing'')) \<and>
   raising_results ! 0 =
     \<lparr>Rule_res = ''Details.missing == 1'', Passed = False,
      Error = Some (GoError ''no such key: missing''), Message = ''needs detail'',
      Metadata = demo_md\<lparr>RuleIndex := 0\<rparr>\<rparr>"
proof -
  have l: "(0 :: nat) < length raising_results"
    by (simp add: raising_results_def)
  have x: "execution demo_cel demo_env demo_vars
             (Rule (RuleEntry ''Details.missing == 1'' True ''needs detail'' [])) =
           Some (OtherVal ''error'', Some (GoError ''no such key: missing''))"
    by (simp add: execution_def demo_defs)
  have t: "spec_traversal (passes demo_cel demo_env demo_vars) demo_md 0 raising_rules {} ! 0 =
     (RuleEntry ''Details.missing == 1'' True ''needs detail'' [], demo_md, 0)"
    by (simp add: raising_rules_def spec_traversal.simps(2) Let_def)
  from failed_execution_carries_failure_message [OF demo_buildEnv demo_raising l t x]
    demo_buildEnv demo_raising l t x
  show ?thesis by simp
qed

text \<open>
  C1 as stated fails. On the record of the tests, whose map \<open>Details\<close> has no key
  \<open>missing\<close>, the rule \<open>Details.missing == 1\<close> compiles, builds and raises at run time,
  and the result the call returns for it carries the entry's failure message, not the
  empty string.
\<close>

theorem execution_error_message_counterexample:
  "buildEnv demo_cel demo_obj = Some (Inr (demo_env, demo_vars)) \<and>
   execution demo_cel demo_env demo_vars ''Details.missing == 1'' =
     Some (OtherVal ''error'', Some (GoError ''no such key: missing'')) \<and>
   Validate strict demo_cel demo_obj
     [RuleEntry ''Details.missing == 1'' True ''needs detail'' []] demo_md =
     Some (Some [\<lparr>Rule_res = ''Details.missing == 1'', Passed = False,
                   Error = Some (GoError ''no such key: missing''), Message = ''needs detail'',
                   Metadata = \<lparr>StructName = ''Sample'', Operation = ''Create'', ChainPath = '''',
                               RuleIndex = 0, ParentRule = ''''\<rparr>\<rparr>], None)"
proof (intro conjI)
  show "buildEnv demo_cel demo_obj = Some (Inr (demo_env, demo_vars))"
    by (rule demo_buildEnv)
  show "execution demo_cel demo_env demo_vars ''Details.missing == 1'' =
     Some (OtherVal ''error'', Some (GoError ''no such key: missing''))"
    by (simp add: execution_def demo_defs)
  show "Validate strict demo_cel demo_obj
     [RuleEntry ''Details.missing == 1'' True ''needs detail'' []] demo_md =
     Some (Some [\<lparr>Rule_res = ''Details.missing == 1'', Passed = False,
                   Error = Some (GoError ''no such key: missing''), Message = ''needs detail'',
                   Metadata = \<lparr>StructName = ''Sample'', Operation = ''Create'', ChainPath = '''',
                               RuleIndex = 0, ParentRule = ''''\<rparr>\<rparr>], None)"
    by (simp only: Validate_buildEnv [OF demo_buildEnv]) (simp add: demo_eval)
qed

text \<open>
  C6. Within a single \<open>Validate\<close> call each expression text produces at most one result:
  the rule texts of the results are pairwise distinct whatever the nesting level they
  come from, and every result comes from an enabled entry of the rule tree, so a
  disabled entry produces none.
\<close>

theorem one_result_per_expression:
  assumes "Validate v c obj rules md = Some (Some rs, err)"
  shows "distinct (map Rule_res rs) \<and>
         (\<forall>r \<in> set rs. \<exists>e \<in> set (all_entries rules). Enabled e \<and> Rule e = Rule_res r)"
proof -
  from assms obtain env vars where b: "buildEnv c obj = Some (Inr (env, vars))"
    by (rule Validate_results_cases)
  from Validate_extends [OF b assms] show ?thesis
    unfolding produced_def by blast
qed

theorem one_result_per_expression_witness:
  "Validate lenient demo_cel demo_obj dup_rules demo_md = Some (Some dup_results, None) \<and>
   distinct (map Rule_res dup_results) \<and>
   (\<exists>e \<in> set (all_entries dup_rules). Enabled e \<and> Rule e = Rule_res (dup_results ! 1)) \<and>
   length dup_results = 2 \<and> length (all_entries dup_rules) = 5"
proof -
  have "dup_results ! 1 \<in> set dup_results"
    by (simp add: dup_results_def)
  with one_result_per_expression [OF demo_dup] demo_dup
  have "distinct (map Rule_res dup_results)"
    and "\<exists>e \<in> set (all_entries dup_rules). Enabled e \<and> Rule e = Rule_res (dup_results ! 1)"
    by blast+
  moreover have "length dup_results = 2" "length (all_entries dup_rules) = 5"
    by (simp_all add: dup_results_def dup_rules_def)
  ultimately show ?thesis using demo_dup by blast
qed

section \<open>Claims about the environment\<close>

text \<open>
  C10. If building the evaluation environment from the record fails at the start of a
  \<open>Validate\<close> call (the record flattens and \<open>cel.NewEnv\<close> returns an error on its
  declarations), \<open>Validate\<close> returns the nil result sequence together with that error,
  whatever the rules and whether or not partial evaluation is enabled.
\<close>

theorem environment_failure_returns_nil_results:
  assumes "flattenStruct obj = Some flds"
    and "NewEnv c (map (\<lambda>(name, val). (name, inferType val)) flds) = Inl e"
  shows "buildEnv c obj = Some (Inl e) \<and>
         (\<forall>v rules md. Validate v c obj rules md = Some (None, Some e))"
  using assms by (simp add: buildEnv_def Validate_def)

theorem environment_failure_returns_nil_results_witness:
  "flattenStruct demo_obj = Some demo_vars \<and>
   NewEnv failing_cel (map (\<lambda>(name, val). (name, inferType val)) demo_vars) =
     Inl (GoError ''bad declaration'') \<and>
   buildEnv failing_cel demo_obj = Some (Inl (GoError ''bad declaration'')) \<and>
   Validate strict failing_cel demo_obj mixed_rules demo_md =
     Some (None, Some (GoError ''bad declaration'')) \<and>
   Validate lenient failing_cel demo_obj mixed_rules demo_md =
     Some (None, Some (GoError ''bad declaration''))"
proof -
  have n: "NewEnv failing_cel (map (\<lambda>(name, val). (name, inferType val)) demo_vars) =
     Inl (GoError ''bad declaration'')"
    by (simp add: failing_cel_def)
  from environment_failure_returns_nil_results [OF demo_flatten n] demo_flatten n
  show ?thesis by simp
qed

section \<open>Claims about halting\<close>

text \<open>
  C2. When partial evaluation is disabled, the first rule that fails to compile or whose
  program fails to build halts \<open>Validate\<close>. Let the complete traversal of the rules, which
  is what the same call records with partial evaluation, be the results \<open>pre\<close> without
  such a failure, then the result \<open>r\<close> of a rule that fails to compile or build, then
  \<open>post\<close>. The call returns exactly \<open>pre\<close> followed by \<open>r\<close>, the results accumulated so
  far with the one recorded for the failing rule (\<open>passed = false\<close>, the compile or build
  error in its \<open>error\<close> field), together with that error as the overall error: none of
  \<open>post\<close>, sibling or descendant at any level, is evaluated.
\<close>

theorem strict_mode_halts_at_first_setup_failure:
  assumes "\<not> partialEval v"
    and "buildEnv c obj = Some (Inr (env, vars))"
    and "spec_results c env vars md rules = pre @ r # post"
    and "\<forall>x \<in> set pre. \<not> is_setup_failure c env x"
    and "is_setup_failure c env r"
  shows "Validate v c obj rules md = Some (Some (pre @ [r]), Error r) \<and>
         Error r = setupError c env (Rule_res r) \<and> Error r \<noteq> None \<and> \<not> Passed r \<and>
         Validate (v\<lparr>partialEval := True\<rparr>) c obj rules md = Some (Some (pre @ r # post), None)"
proof -
  have "Validate v c obj rules md = Some (Some (pre @ [r]), Error r)"
    unfolding Validate_strict_eq [OF assms(2) assms(1)] assms(3)
    by (simp add: upto_first_found [OF assms(4) assms(5)] find_found [OF assms(4) assms(5)])
  moreover have "r \<in> set (spec_results c env vars md rules)"
    unfolding assms(3) by simp
  from spec_results_failure [OF this assms(5)]
  have "Error r = setupError c env (Rule_res r) \<and> Error r \<noteq> None \<and> \<not> Passed r" by blast
  moreover have "Validate (v\<lparr>partialEval := True\<rparr>) c obj rules md =
      Some (Some (pre @ r # post), None)"
    using Validate_partial_eq [OF assms(2), of "v\<lparr>partialEval := True\<rparr>" rules md] assms(3)
    by simp
  ultimately show ?thesis by blast
qed

theorem strict_mode_halts_at_first_setup_failure_witness:
  "\<not> partialEval strict \<and>
   buildEnv demo_cel demo_obj = Some (Inr (demo_env, demo_vars)) \<and>
   spec_results demo_cel demo_env demo_vars demo_md invalid_first_rules =
     [] @ invalid_first_results ! 0 # invalid_first_remaining \<and>
   is_setup_failure demo_cel demo_env (invalid_first_results ! 0) \<and>
   Validate strict demo_cel demo_obj invalid_first_rules demo_md =
     Some (Some [invalid_first_results ! 0],
           Some (GoError ''undeclared reference to UnknownField'')) \<and>
   Error (invalid_first_results ! 0) = Some (GoError ''undeclared reference to UnknownField'') \<and>
   \<not> Passed (invalid_first_results ! 0) \<and>
   Validate (strict\<lparr>partialEval := True\<rparr>) demo_cel demo_obj invalid_first_rules demo_md =
     Some (Some (invalid_first_results ! 0 # invalid_first_remaining), None) \<and>
   length invalid_first_rules = 3 \<and> length invalid_first_remaining = 2 \<and>
   spec_results demo_cel demo_env demo_vars demo_md halting_rules =
     [halting_results ! 0] @ halting_results ! 1 # remaining_results \<and>
   \<not> is_setup_failure demo_cel demo_env (halting_results ! 0) \<and>
   is_setup_failure demo_cel demo_env (halting_results ! 1) \<and>
   Validate strict demo_cel demo_obj halting_rules demo_md =
     Some (Some [halting_results ! 0, halting_results ! 1],
           Some (GoError ''undeclared reference to UnknownField'')) \<and>
   length (all_entries halting_rules) = 4"
proof -
  have s: "\<not> partialEval strict" by (simp add: demo_defs)
  have l: "partialEval lenient" by (simp add: demo_defs)
  have t: "spec_results demo_cel demo_env demo_vars demo_md invalid_first_rules =
     [] @ invalid_first_results ! 0 # invalid_first_remaining"
    using Validate_partial_eq [OF demo_buildEnv l, of invalid_first_rules demo_md]
      demo_invalid_first_lenient
    by (simp add: invalid_first_results_def)
  have p: "\<forall>x \<in> set ([] :: ValidationResult list). \<not> is_setup_failure demo_cel demo_env x"
    by simp
  have f: "is_setup_failure demo_cel demo_env (invalid_first_results ! 0)"
    by (simp add: is_setup_failure_def setupError_def invalid_first_results_def demo_defs)
  have e: "Error (invalid_first_results ! 0) =
      Some (GoError ''undeclared reference to UnknownField'')"
    by (simp add: invalid_first_results_def)
  have n: "length invalid_first_rules = 3" "length invalid_first_remaining = 2"
    by (simp_all add: invalid_first_rules_def invalid_first_remaining_def)
  have t': "spec_results demo_cel demo_env demo_vars demo_md halting_rules =
     [halting_results ! 0] @ halting_results ! 1 # remaining_results"
    using Validate_partial_eq [OF demo_buildEnv l, of halting_rules demo_md] demo_halting_lenient
    by (simp add: halting_results_def)
  have p0: "\<not> is_setup_failure demo_cel demo_env (halting_results ! 0)"
    by (simp add: is_setup_failure_def setupError_def halting_results_def demo_defs)
  then have p': "\<forall>x \<in> set [halting_results ! 0]. \<not> is_setup_failure demo_cel demo_env x"
    by simp
  have f': "is_setup_failure demo_cel demo_env (halting_results ! 1)"
    by (simp add: is_setup_failure_def setupError_def halting_results_def demo_defs)
  have e': "Error (halting_results ! 1) =
      Some (GoError ''undeclared reference to UnknownField'')"
    "length (all_entries halting_rules) = 4"
    by (simp_all add: halting_results_def halting_rules_def)
  from strict_mode_halts_at_first_setup_failure [OF s demo_buildEnv t p f]
    strict_mode_halts_at_first_setup_failure [OF s demo_buildEnv t' p' f']
    s demo_buildEnv t f e n t' p0 f' e'
  show ?thesis by simp
qed

text \<open>
  C3. Whenever \<open>Validate\<close> runs to completion, in partial-evaluation mode or because no
  result it recorded is a compile or build failure, it returns a nil overall error and
  one result per rule evaluated: the results are exactly those of the complete traversal
  of the rules, in which a compile or build failure only records its result and the
  traversal continues with every remaining enabled, unseen rule at every level. In
  particular every enabled rule of the given list has its expression text among the
  results, and the results are as many as their distinct expression texts. Logical
  failures and execution errors are not compile or build failures, so they neither halt
  the call nor become the overall error.
\<close>

theorem completed_run_returns_no_error:
  assumes "buildEnv c obj = Some (Inr (env, vars))"
    and "Validate v c obj rules md = Some (Some rs, err)"
    and "partialEval v \<or> (\<forall>r \<in> set rs. setupError c env (Rule_res r) = None)"
  shows "err = None \<and> rs = spec_results c env vars md rules \<and>
         (\<forall>e \<in> set rules. Enabled e \<longrightarrow> Rule e \<in> Rule_res ` set rs) \<and>
         length rs = card (Rule_res ` set rs)"
proof -
  let ?st0 = "\<lparr>seen = {}, results = []\<rparr>"
  let ?F = "is_setup_failure c env"
  let ?full = "spec_results c env vars md rules"
  have full: "err = None \<and> rs = ?full"
  proof (cases "partialEval v")
    case True
    from Validate_partial_eq [OF assms(1) True, of rules md] assms(2) show ?thesis by simp
  next
    case False
    from Validate_strict_eq [OF assms(1) False, of rules md] assms(2)
    have rs: "rs = upto_first ?F ?full"
      and err: "err = (case find ?F ?full of None \<Rightarrow> None | Some r \<Rightarrow> Error r)"
      by simp_all
    from False assms(3) have "\<forall>r \<in> set (upto_first ?F ?full). \<not> ?F r"
      unfolding rs is_setup_failure_def by simp
    from upto_first_clean [OF this] rs err show ?thesis by simp
  qed
  from assms(1) assms(2) obtain st
    where e: "eval (partialEval v) c env vars md 0 rules ?st0 = (st, err)"
      and r: "results st = rs"
    by (rule Validate_eval)
  from full have none: "err = None" ..
  from eval_extends [OF e] obtain new where x: "extends c env vars rules ?st0 new st" ..
  with r have s: "seen st = Rule_res ` set rs" and d: "distinct (map Rule_res rs)"
    by (simp_all add: extends_def)
  have "\<forall>e \<in> set rules. Enabled e \<longrightarrow> Rule e \<in> Rule_res ` set rs"
    using eval_completes [OF e [unfolded none]] s by blast
  moreover from d have "length rs = card (Rule_res ` set rs)" by (rule card_Rule_res)
  ultimately show ?thesis using full by blast
qed

theorem completed_run_returns_no_error_witness:
  "buildEnv demo_cel demo_obj = Some (Inr (demo_env, demo_vars)) \<and>
   Validate lenient demo_cel demo_obj halting_rules demo_md =
     Some (Some (halting_results @ remaining_results), None) \<and>
   partialEval lenient \<and>
   halting_results @ remaining_results =
     spec_results demo_cel demo_env demo_vars demo_md halting_rules \<and>
   Rule (halting_rules ! 1) \<in> Rule_res ` set (halting_results @ remaining_results) \<and>
   length (halting_results @ remaining_results) =
     card (Rule_res ` set (halting_results @ remaining_results)) \<and>
   Validate strict demo_cel demo_obj mixed_rules demo_md = Some (Some mixed_results, None) \<and>
   Error (mixed_results ! 3) = Some (GoError ''no such key: missing'') \<and>
   mixed_results = spec_results demo_cel demo_env demo_vars demo_md mixed_rules \<and>
   Rule (mixed_rules ! 3) \<in> Rule_res ` set mixed_results \<and>
   length mixed_results = card (Rule_res ` set mixed_results)"
proof -
  have p: "partialEval lenient" by (simp add: demo_defs)
  have ok: "\<forall>r \<in> set mixed_results. setupError demo_cel demo_env (Rule_res r) = None"
    by (simp add: mixed_results_def setupError_def demo_defs)
  have m: "halting_rules ! 1 \<in> set halting_rules" "Enabled (halting_rules ! 1)"
    "mixed_rules ! 3 \<in> set mixed_rules" "Enabled (mixed_rules ! 3)"
    "Error (mixed_results ! 3) = Some (GoError ''no such key: missing'')"
    by (simp_all add: halting_rules_def mixed_rules_def mixed_results_def)
  from completed_run_returns_no_error [OF demo_buildEnv demo_halting_lenient disjI1 [OF p]]
    completed_run_returns_no_error [OF demo_buildEnv demo_mixed disjI2 [OF ok]]
    p m demo_buildEnv demo_halting_lenient demo_mixed
  show ?thesis by blast
qed

section \<open>Claims about rule resolution\<close>

text \<open>
  C5. For every record, operation and repository, \<open>GetRulesFor\<close> returns the enabled
  entries of the type's \<open>Default\<close> bucket in their order, followed by the enabled entries
  of the operation bucket in their order, only the first occurrence of each expression
  text, each entry rebuilt with its enabled children recursively; so no entry of the
  result, at any depth, is disabled, and no two top-level entries share an expression
  text. If the type is absent from the repository the result is empty.
\<close>

theorem GetRulesFor_merges_dedups_and_prunes:
  assumes "getStructName obj = Some name"
  shows "GetRulesFor obj operation rules = Some (spec_GetRulesFor rules name operation) \<and>
         (\<forall>e \<in> set (all_entries (spec_GetRulesFor rules name operation)). Enabled e) \<and>
         distinct (map Rule (spec_GetRulesFor rules name operation)) \<and>
         (rules name = None \<longrightarrow> GetRulesFor obj operation rules = Some [])"
proof -
  have eq: "GetRulesFor obj operation rules = Some (spec_GetRulesFor rules name operation)"
    using assms by (rule GetRulesFor_eq_spec)
  have en: "\<forall>e \<in> set (all_entries (spec_GetRulesFor rules name operation)). Enabled e"
  proof (cases "rules name")
    case None
    then show ?thesis by (simp add: spec_GetRulesFor_def)
  next
    case (Some structRules)
    let ?xs = "first_by_rule (filter Enabled (bucket structRules ''Default'') @
                              filter Enabled (bucket structRules operation))"
    have "\<forall>x \<in> set ?xs. Enabled x"
      using set_first_by_rule [of "filter Enabled (bucket structRules ''Default'') @
                              filter Enabled (bucket structRules operation)"] by auto
    then have "filter Enabled ?xs = ?xs" by (rule filter_True)
    then have "e \<in> set (all_entries (map spec_prune ?xs)) \<Longrightarrow> Enabled e" for e
      using all_entries_spec_prune_enabled [of e ?xs] by simp
    then show ?thesis
      using Some unfolding spec_GetRulesFor_def by (simp only: option.case) blast
  qed
  have di: "distinct (map Rule (spec_GetRulesFor rules name operation))"
    by (cases "rules name")
       (simp_all add: spec_GetRulesFor_def comp_def distinct_first_by_rule)
  have "rules name = None \<longrightarrow> GetRulesFor obj operation rules = Some []"
    using eq by (simp add: spec_GetRulesFor_def)
  with eq en di show ?thesis by blast
qed

theorem GetRulesFor_merges_dedups_and_prunes_witness:
  "getStructName demo_obj = Some ''Sample'' \<and>
   GetRulesFor demo_obj ''Create'' demo_repo = Some demo_resolved \<and>
   spec_GetRulesFor demo_repo ''Sample'' ''Create'' = demo_resolved \<and>
   distinct (map Rule demo_resolved) \<and>
   Enabled (all_entries demo_resolved ! 1) \<and> length (all_entries demo_resolved) = 3"
proof -
  have n: "getStructName demo_obj = Some ''Sample''"
    by (simp add: demo_obj_def)
  have s: "spec_GetRulesFor demo_repo ''Sample'' ''Create'' = demo_resolved"
    by (simp add: spec_GetRulesFor_def demo_repo_def demo_resolved_def bucket_def)
  have m: "all_entries demo_resolved ! 1 \<in> set (all_entries demo_resolved)"
    "length (all_entries demo_resolved) = 3"
    by (simp_all add: demo_resolved_def)
  from GetRulesFor_merges_dedups_and_prunes [OF n, of "''Create''" demo_repo] n s m
  show ?thesis by auto
qed

text \<open>
  C8. For every record, operation string and repository, \<open>NewValidationMetadata\<close> produces
  a context with the record's type name, chain path \<open>''''\<close>, rule index \<open>-1\<close> and parent
  rule \<open>''''\<close>. Its operation is the given one when that is non-empty and the type is
  present in the repository; the name of the only bucket when the given operation is
  empty and the type has exactly one bucket; \<open>Default\<close> when the given operation is empty
  and the number of buckets differs from one; and \<open>Default\<close>, whatever the given
  operation, when the type is absent from the repository.
\<close>

theorem NewValidationMetadata_operation:
  assumes "getStructName obj = Some name"
  shows "\<exists>md. NewValidationMetadata obj operation rules = Some md \<and>
           StructName md = name \<and> ChainPath md = '''' \<and> RuleIndex md = - 1 \<and>
           ParentRule md = '''' \<and>
           (\<forall>structRules. rules name = Some structRules \<longrightarrow> operation \<noteq> '''' \<longrightarrow>
              Operation md = operation) \<and>
           (\<forall>k rs. rules name = Some [(k, rs)] \<longrightarrow> operation = '''' \<longrightarrow> Operation md = k) \<and>
           (\<forall>structRules. rules name = Some structRules \<longrightarrow> operation = '''' \<longrightarrow>
              length structRules \<noteq> 1 \<longrightarrow> Operation md = ''Default'') \<and>
           (rules name = None \<longrightarrow> Operation md = ''Default'')"
  using assms by (auto simp: NewValidationMetadata_def Let_def split: option.splits)

theorem NewValidationMetadata_operation_witness:
  "getStructName demo_obj = Some ''Sample'' \<and>
   NewValidationMetadata demo_obj '''' single_repo =
     Some \<lparr>StructName = ''Sample'', Operation = ''Update'', ChainPath = '''',
           RuleIndex = - 1, ParentRule = ''''\<rparr> \<and>
   NewValidationMetadata demo_obj ''Create'' single_repo =
     Some \<lparr>StructName = ''Sample'', Operation = ''Create'', ChainPath = '''',
           RuleIndex = - 1, ParentRule = ''''\<rparr> \<and>
   NewValidationMetadata demo_obj '''' demo_repo =
     Some \<lparr>StructName = ''Sample'', Operation = ''Default'', ChainPath = '''',
           RuleIndex = - 1, ParentRule = ''''\<rparr> \<and>
   NewValidationMetadata (PtrV (StructV ''Other'' [])) ''Create'' demo_repo =
     Some \<lparr>StructName = ''Other'', Operation = ''Default'', ChainPath = '''',
           RuleIndex = - 1, ParentRule = ''''\<rparr>"
proof -
  have n: "getStructName demo_obj = Some ''Sample''"
    by (simp add: demo_obj_def)
  have o: "getStructName (PtrV (StructV ''Other'' [])) = Some ''Other''"
    by simp
  have r: "single_repo ''Sample'' = Some [(''Update'', [RuleEntry ''Age > 18'' True '''' []])]"
    "demo_repo ''Other'' = None" "length (the (demo_repo ''Sample'')) \<noteq> 1"
    "demo_repo ''Sample'' \<noteq> None"
    by (simp_all add: single_repo_def demo_repo_def)
  from NewValidationMetadata_operation [OF n, of "''''" single_repo]
    NewValidationMetadata_operation [OF n, of "''Create''" single_repo]
    NewValidationMetadata_operation [OF n, of "''''" demo_repo]
    NewValidationMetadata_operation [OF o, of "''Create''" demo_repo]
    n r
  show ?thesis by (auto simp: ValidationMetadata.equality)
qed

section \<open>Claims about flattening\<close>

text \<open>
  C9, as amended. For every input record, a struct or a pointer to a struct (the
  pointer input is dereferenced, and flattens like the struct it points to), the
  flattening used by \<open>Validate\<close> returns a map with one entry per key of
  \<open>flattened_paths\<close>: a field whose kind is struct is flattened recursively to keys
  parentField + "." + childField, a field that cannot be introspected is skipped, and
  every other field is stored under its own name as a single value. A pointer-valued
  field is such a field: it is not dereferenced, also when it points to a struct; so is
  a field of interface type, also when it holds a struct.
\<close>

theorem flattenStruct_flattens_struct_fields:
  "flattenStruct (PtrV (StructV n fs)) = flattenStruct (StructV n fs) \<and>
   (\<exists>flds. flattenStruct (StructV n fs) = Some flds \<and> distinct (map fst flds) \<and>
      map_of flds = map_of (rev (flattened_paths fs)))"
proof -
  have "distinct (map fst ([] :: (string \<times> go_value) list))" by simp
  from flattenFields_spec [OF this, of fs] show ?thesis by simp
qed

theorem flattenStruct_flattens_struct_fields_witness:
  "flattenStruct (PtrV (StructV ''User'' pointer_fields)) =
     flattenStruct (StructV ''User'' pointer_fields) \<and>
   (\<exists>flds. flattenStruct (StructV ''User'' pointer_fields) = Some flds \<and>
      distinct (map fst flds) \<and>
      map_of flds = map_of [(''Address'', PtrV address), (''Name'', StringV ''Ann'')]) \<and>
   flattened_paths plain_fields =
     [(''Name'', StringV ''Ann''), (''Address.City'', StringV ''Toronto'')] \<and>
   flattened_paths interface_fields = [(''Name'', StringV ''Ann''), (''Address'', address)]"
proof -
  have p: "rev (flattened_paths pointer_fields) =
     [(''Address'', PtrV address), (''Name'', StringV ''Ann'')]"
    by (simp add: pointer_fields_def)
  have q: "flattened_paths plain_fields =
     [(''Name'', StringV ''Ann''), (''Address.City'', StringV ''Toronto'')]"
    "flattened_paths interface_fields = [(''Name'', StringV ''Ann''), (''Address'', address)]"
    by (simp_all add: plain_fields_def interface_fields_def address_def)
  from flattenStruct_flattens_struct_fields [of "''User''" pointer_fields] q
  show ?thesis unfolding p by blast
qed

text \<open>
  C9 as stated fails on a pointer-valued field: the address behind a pointer is stored
  under the key \<open>Address\<close> as one value, where the same address as a plain nested
  struct is flattened to the key \<open>Address.City\<close>.
\<close>

theorem pointer_field_counterexample:
  "flattenStruct (StructV ''User'' plain_fields) =
     Some [(''Name'', StringV ''Ann''), (''Address.City'', StringV ''Toronto'')] \<and>
   flattenStruct (StructV ''User'' pointer_fields) =
     Some [(''Name'', StringV ''Ann''),
           (''Address'', PtrV (StructV ''Address'' [StructField ''City'' True False (StringV ''Toronto'')]))]"
  by (simp add: plain_fields_def pointer_fields_def address_def)

section \<open>Claims about children\<close>




end
